theory Spec2Isabelle
  imports Main
begin

section \<open>Values, property descriptors and the object store\<close>

text \<open>
  The observer (\<open>core/observer/index.js\<close>), the dependency class
  (\<open>core/observer/dep.js\<close>) and the array interceptor (\<open>core/observer/array.js\<close>),
  which follow one another in \<open>src/core/vdom/helpers/resolve-async-component.js\<close>,
  work on JavaScript objects that are shared by reference and mutated in place. The
  embedding keeps an explicit store: objects, Observer instances, Dep instances, the
  closures created by \<open>defineReactive\<close> and the private cells of user-written accessor
  pairs are lists indexed by their identity, and allocation appends to the list.
\<close>

datatype val =
    VUndef | VNull | VBool bool | VNum int | VNaN | VStr string
  | VRef nat  \<comment> \<open>a reference to the object at that index of the store\<close>

text \<open>JavaScript's \<open>===\<close>: NaN is the one value different from itself.\<close>

definition strict_eq :: "val \<Rightarrow> val \<Rightarrow> bool" where
  "strict_eq a b = (a = b \<and> a \<noteq> VNaN)"

datatype key = Idx nat | Name string

text \<open>
  A function stored in an accessor descriptor: the getter or setter of a user-written
  accessor pair over a private cell, or the \<open>reactiveGetter\<close> / \<open>reactiveSetter\<close> of
  one closure of \<open>defineReactive\<close>.
\<close>

datatype getter = UserGetter nat | ReactiveGetter nat

datatype setter = UserSetter nat | ReactiveSetter nat

text \<open>
  A property descriptor. \<open>ObProp\<close> is the data property whose value is an Observer
  instance, which is what \<open>def(value, '__ob__', this)\<close> defines; Observer instances
  are not values of the store otherwise.
\<close>

datatype pdesc =
    DataProp (pvalue: val) (pwritable: bool) (penum: bool) (pconf: bool)
  | AccessorProp (pget: "getter option") (pset: "setter option") (penum: bool) (pconf: bool)
  | ObProp (pobserver: nat) (pwritable: bool) (penum: bool) (pconf: bool)

datatype okind = Plain | Array | Other

text \<open>
  An object. Its own properties are in \<open>props\<close>, the hidden \<open>__ob__\<close> and the
  \<open>_isVue\<close> of a Vue instance among them. Its prototype chain is not an object of
  the store: \<open>inherited\<close> lists the keys the object inherits from the prototypes
  that come before \<open>Object.prototype\<close> (none for an object literal, the members of
  \<open>Array.prototype\<close> for an array, those of \<open>Vue.prototype\<close> for a Vue instance),
  and every object inherits from \<open>Object.prototype\<close> in the end. Neither \<open>__ob__\<close>
  nor \<open>_isVue\<close> is inherited.
\<close>

record obj =
  kind :: okind  \<comment> \<open>\<open>Plain\<close>: isPlainObject; \<open>Array\<close>: Array.isArray\<close>
  props :: "(key \<times> pdesc) list"  \<comment> \<open>own properties, in creation order\<close>
  elems :: "val list"  \<comment> \<open>the elements of an array; a hole reads as \<open>undefined\<close>\<close>
  extensible :: bool
  inherited :: "key list"
  isVNode :: bool  \<comment> \<open>\<open>instanceof VNode\<close>\<close>
  augmented :: bool  \<comment> \<open>protoAugment / copyAugment has installed arrayMethods\<close>

text \<open>
  The reads \<open>x.__ob__\<close> and \<open>x._isVue\<close>. Both are data properties wherever the
  framework defines them, and are read as such: \<open>ob\<close> is the Observer that an own
  \<open>__ob__\<close> holds (\<open>hasOwn(value, '__ob__') && value.__ob__ instanceof Observer\<close>),
  and \<open>isVue\<close> tells whether an own \<open>_isVue\<close> holds a value that counts as true.
\<close>

definition truthy :: "val \<Rightarrow> bool" where
  "truthy v = (case v of VUndef \<Rightarrow> False | VNull \<Rightarrow> False | VBool b \<Rightarrow> b | VNum l \<Rightarrow> l \<noteq> 0
               | VNaN \<Rightarrow> False | VStr str \<Rightarrow> str \<noteq> [] | VRef a \<Rightarrow> True)"

definition ob :: "obj \<Rightarrow> nat option" where
  "ob x = (case map_of (props x) (Name ''__ob__'') of Some (ObProp b _ _ _) \<Rightarrow> Some b | _ \<Rightarrow> None)"

definition isVue :: "obj \<Rightarrow> bool" where
  "isVue x = (case map_of (props x) (Name ''_isVue'') of Some (DataProp v _ _ _) \<Rightarrow> truthy v
              | _ \<Rightarrow> False)"

record observer =
  ovalue :: nat  \<comment> \<open>\<open>this.value\<close>\<close>
  odep :: nat  \<comment> \<open>\<open>this.dep\<close>\<close>
  vmCount :: nat

text \<open>The variables one call of \<open>defineReactive\<close> closes over.\<close>

record closure =
  cobj :: nat
  cdep :: nat
  cval :: val
  cchildOb :: "nat option"  \<comment> \<open>\<open>None\<close> for \<open>false\<close> and \<open>undefined\<close>\<close>
  cgetter :: "getter option"
  csetter :: "setter option"
  cshallow :: bool
  ccustomSetter :: bool

record state =
  objs :: "obj list"
  observers :: "observer list"
  deps :: "nat list list"  \<comment> \<open>\<open>subs\<close> of every Dep; \<open>uid\<close> is the length\<close>
  closures :: "closure list"
  cells :: "val list"
  target :: "nat option"  \<comment> \<open>\<open>Dep.target\<close>, a watcher\<close>
  shouldObserve :: bool

text \<open>
  What a call does besides changing the store: the diagnostics it reports and the
  methods of Dep and Watcher it invokes, in order.
\<close>

datatype call = CWarn | CCustomSetter | CNotify nat | CUpdate nat

datatype error = TypeError | RangeError

text \<open>
  The outcome of a call: it returns, it throws, or the recursion bound of the model
  is used up (the JavaScript would not return).
\<close>

datatype 'a res = Ok 'a | Throw error | OutOfFuel

fun rbind :: "'a res \<Rightarrow> ('a \<Rightarrow> 'b res) \<Rightarrow> 'b res" where
  "rbind (Ok x) f = f x"
| "rbind (Throw e) f = Throw e"
| "rbind OutOfFuel f = OutOfFuel"

datatype arrayMethod = Push | Pop | Shift | Unshift | Splice | Sort | Reverse

text \<open>
  What the observer takes from its surroundings: the build flag
  \<open>process.env.NODE_ENV === 'production'\<close>, \<open>config.async\<close>,
  \<open>isServerRendering()\<close>, \<open>update\<close> of the watcher class (which is not
  part of these modules; any effect on the store is allowed), and the built-in methods
  of \<open>Array.prototype\<close> that the interceptor wraps. Two more are left to the
  language: \<open>toNumber\<close>, the conversion of a string or an object to a number, and
  \<open>assignInherited\<close>, what the assignment \<open>target[key] = val\<close> does when the key
  is not own and the prototype chain decides (it may call a setter found there, as for
  \<open>__proto__\<close> and for \<open>$data\<close> of a Vue instance, create an own property, or
  throw).
\<close>

record env =
  production :: bool
  async :: bool
  serverRendering :: bool
  update :: "nat \<Rightarrow> state \<Rightarrow> state"
  original :: "arrayMethod \<Rightarrow> nat \<Rightarrow> val list \<Rightarrow> state \<Rightarrow> (val \<times> state) res"
  toNumber :: "state \<Rightarrow> val \<Rightarrow> val"
  assignInherited :: "nat \<Rightarrow> key \<Rightarrow> val \<Rightarrow> state \<Rightarrow> (call list \<times> state) res"

definition lookup :: "'a list \<Rightarrow> nat \<Rightarrow> 'a option" where
  "lookup xs i = (if i < length xs then Some (xs ! i) else None)"

section \<open>Dep\<close>

definition subs :: "state \<Rightarrow> nat \<Rightarrow> nat list" where
  "subs s d = (case lookup (deps s) d of Some ws \<Rightarrow> ws | None \<Rightarrow> [])"

text \<open>\<open>new Dep()\<close>: \<open>this.id = uid++; this.subs = []\<close>.\<close>

definition newDep :: "state \<Rightarrow> nat \<times> state" where
  "newDep s = (length (deps s), s\<lparr>deps := deps s @ [[]]\<rparr>)"

definition addSub :: "nat \<Rightarrow> nat \<Rightarrow> state \<Rightarrow> state" where
  "addSub d w s = s\<lparr>deps := (deps s)[d := subs s d @ [w]]\<rparr>"

text \<open>
  Modelled from the spec: \<open>Watcher.addDep\<close>, which \<open>Dep.depend\<close> calls and which is
  defined in the watcher class, not in these modules. A Dependency "holds an ordered
  set of subscribed Computations, unique by identity": the watcher is added to the
  subscribers unless it is among them.
\<close>

definition addDep :: "nat \<Rightarrow> nat \<Rightarrow> state \<Rightarrow> state" where
  "addDep w d s = (if w \<in> set (subs s d) then s else addSub d w s)"

definition depend :: "nat \<Rightarrow> state \<Rightarrow> state" where
  "depend d s = (case target s of Some w \<Rightarrow> addDep w d s | None \<Rightarrow> s)"

text \<open>The loop of \<open>notify\<close> over its local copy of the subscriber list.\<close>

fun notify_loop :: "env \<Rightarrow> nat list \<Rightarrow> state \<Rightarrow> call list \<times> state" where
  "notify_loop e [] s = ([], s)"
| "notify_loop e (w # ws) s =
     (let (cs, s') = notify_loop e ws (update e w s) in (CUpdate w # cs, s'))"

definition notify :: "env \<Rightarrow> nat \<Rightarrow> state \<Rightarrow> call list \<times> state" where
  "notify e d s =
     (let subs0 = subs s d;
          subs1 = (if \<not> production e \<and> \<not> async e then sort subs0 else subs0);
          (cs, s') = notify_loop e subs1 s
      in (CNotify d # cs, s'))"

section \<open>Reading the store\<close>

text \<open>
  References are created by allocation only, so a reference outside the store does
  not occur in a run of the program; the lookups below answer \<open>None\<close> there and the
  operations treat the value like one that is not an object.
\<close>

definition getObj :: "state \<Rightarrow> nat \<Rightarrow> obj option" where
  "getObj s a = lookup (objs s) a"

definition obOf :: "state \<Rightarrow> val \<Rightarrow> nat option" where
  "obOf s v = (case v of VRef a \<Rightarrow> (case getObj s a of Some x \<Rightarrow> ob x | None \<Rightarrow> None)
               | _ \<Rightarrow> None)"

definition obDep :: "state \<Rightarrow> nat \<Rightarrow> nat option" where
  "obDep s b = map_option odep (lookup (observers s) b)"

definition isArray :: "state \<Rightarrow> val \<Rightarrow> bool" where
  "isArray s v = (case v of VRef a \<Rightarrow> (case getObj s a of Some x \<Rightarrow> kind x = Array | None \<Rightarrow> False)
                  | _ \<Rightarrow> False)"

definition elemsOf :: "state \<Rightarrow> val \<Rightarrow> val list" where
  "elemsOf s v = (case v of VRef a \<Rightarrow> (case getObj s a of Some x \<Rightarrow> elems x | None \<Rightarrow> [])
                  | _ \<Rightarrow> [])"

text \<open>\<open>x.dep.depend()\<close> for the Observer \<open>x\<close>.\<close>

definition dependOb :: "nat \<Rightarrow> state \<Rightarrow> state" where
  "dependOb b s = (case obDep s b of Some d \<Rightarrow> depend d s | None \<Rightarrow> s)"

section \<open>dependArray and the getters\<close>

text \<open>
  \<open>dependArray\<close>; \<open>dependElem\<close> is \<open>e && e.__ob__ && e.__ob__.dep.depend()\<close>.
  It recurses into nested arrays. An array that contains itself makes the
  JavaScript recurse without end, so the nesting depth is bounded by the first argument.
\<close>

definition dependElem :: "val \<Rightarrow> state \<Rightarrow> state" where
  "dependElem v s = (case obOf s v of Some b \<Rightarrow> dependOb b s | None \<Rightarrow> s)"

fun dependArray :: "nat \<Rightarrow> val list \<Rightarrow> state \<Rightarrow> state res" where
  "dependArray n [] s = Ok s"
| "dependArray n (v # vs) s =
     rbind (if isArray s v
            then (case n of 0 \<Rightarrow> OutOfFuel
                  | Suc m \<Rightarrow> dependArray m (elemsOf s v) (dependElem v s))
            else Ok (dependElem v s))
       (\<lambda>s2. dependArray n vs s2)"

text \<open>
  Calling a getter. A \<open>reactiveGetter\<close> reads the variables of its closure and may call
  the getter the property had before, which may be a \<open>reactiveGetter\<close> again;
  \<open>subscribeRead\<close> is its block \<open>if (Dep.target) { ... }\<close> and the \<open>return value\<close>.
\<close>

definition subscribeRead :: "nat \<Rightarrow> closure \<Rightarrow> val \<Rightarrow> state \<Rightarrow> (val \<times> state) res" where
  "subscribeRead n cl value s =
     (if target s \<noteq> None then
        (case cchildOb cl of
           Some b \<Rightarrow>
             if isArray s value
             then rbind (dependArray n (elemsOf s value) (dependOb b (depend (cdep cl) s)))
                    (\<lambda>s4. Ok (value, s4))
             else Ok (value, dependOb b (depend (cdep cl) s))
         | None \<Rightarrow> Ok (value, depend (cdep cl) s))
      else Ok (value, s))"

fun call_get :: "nat \<Rightarrow> getter \<Rightarrow> state \<Rightarrow> (val \<times> state) res" where
  "call_get n (UserGetter c) s =
     Ok (case lookup (cells s) c of Some v \<Rightarrow> v | None \<Rightarrow> VUndef, s)"
| "call_get n (ReactiveGetter c) s =
     (case lookup (closures s) c of
        None \<Rightarrow> Ok (VUndef, s)
      | Some cl \<Rightarrow>
          rbind (case cgetter cl of
                   Some g \<Rightarrow> (case n of 0 \<Rightarrow> OutOfFuel | Suc m \<Rightarrow> call_get m g s)
                 | None \<Rightarrow> Ok (cval cl, s))
            (\<lambda>(value, s1). subscribeRead n cl value s1))"

section \<open>Own properties\<close>

text \<open>
  \<open>Object.getOwnPropertyDescriptor\<close>. The indices of an array and its \<open>length\<close> are
  own data properties kept in \<open>elems\<close>; these modules install no accessor on an index
  (\<open>walk\<close> is for non-arrays and \<open>set\<close> sends an index to \<open>splice\<close>).
\<close>

definition ownProp :: "obj \<Rightarrow> key \<Rightarrow> pdesc option" where
  "ownProp x k =
     (case map_of (props x) k of
        Some p \<Rightarrow> Some p
      | None \<Rightarrow>
          if kind x = Array then
            (case k of
               Idx i \<Rightarrow> if i < length (elems x) then Some (DataProp (elems x ! i) True True True)
                        else None
             | Name nm \<Rightarrow> if nm = ''length''
                          then Some (DataProp (VNum (int (length (elems x)))) True False False)
                          else None)
          else None)"

definition getterOf :: "pdesc option \<Rightarrow> getter option" where
  "getterOf property = (case property of Some (AccessorProp g _ _ _) \<Rightarrow> g | _ \<Rightarrow> None)"

definition setterOf :: "pdesc option \<Rightarrow> setter option" where
  "setterOf property = (case property of Some (AccessorProp _ st _ _) \<Rightarrow> st | _ \<Rightarrow> None)"

definition setProp :: "key \<Rightarrow> pdesc \<Rightarrow> (key \<times> pdesc) list \<Rightarrow> (key \<times> pdesc) list" where
  "setProp k p ps =
     (if k \<in> fst ` set ps then map (\<lambda>(k', q). if k' = k then (k, p) else (k', q)) ps
      else ps @ [(k, p)])"

definition putObj :: "nat \<Rightarrow> obj \<Rightarrow> state \<Rightarrow> state" where
  "putObj a x s = s\<lparr>objs := (objs s)[a := x]\<rparr>"

text \<open>
  \<open>Object.defineProperty\<close>: a TypeError when the own property is not configurable, or
  when the property is new and the object is not extensible.
\<close>

definition defineProperty :: "nat \<Rightarrow> key \<Rightarrow> pdesc \<Rightarrow> state \<Rightarrow> state res" where
  "defineProperty a k p s =
     (case getObj s a of
        None \<Rightarrow> Throw TypeError
      | Some x \<Rightarrow>
          (case ownProp x k of
             Some q \<Rightarrow> if pconf q then Ok (putObj a (x\<lparr>props := setProp k p (props x)\<rparr>) s)
                       else Throw TypeError
           | None \<Rightarrow> if extensible x then Ok (putObj a (x\<lparr>props := setProp k p (props x)\<rparr>) s)
                     else Throw TypeError))"

text \<open>
  The read \<open>obj[key]\<close> of an own property (a key that is not own reads as
  \<open>undefined\<close>). \<open>defineReactive\<close> reads the keys that \<open>walk\<close> gives it, which
  are enumerable; the hidden \<open>__ob__\<close> is not, and its Observer, which is not a value
  of the store, is not read here.
\<close>

definition getProp :: "nat \<Rightarrow> nat \<Rightarrow> key \<Rightarrow> state \<Rightarrow> (val \<times> state) res" where
  "getProp n a k s =
     (case getObj s a of
        None \<Rightarrow> Throw TypeError
      | Some x \<Rightarrow>
          (case ownProp x k of
             Some (DataProp v _ _ _) \<Rightarrow> Ok (v, s)
           | Some (AccessorProp (Some g) _ _ _) \<Rightarrow> call_get n g s
           | Some (AccessorProp None _ _ _) \<Rightarrow> Ok (VUndef, s)
           | Some (ObProp _ _ _ _) \<Rightarrow> Ok (VUndef, s)
           | None \<Rightarrow> Ok (VUndef, s)))"

text \<open>
  \<open>Object.keys\<close>: the enumerable own keys, the integer keys first and in ascending
  order, then the names in creation order.
\<close>

definition indexKeys :: "key list \<Rightarrow> nat list" where
  "indexKeys ks = List.map_filter (\<lambda>k. case k of Idx i \<Rightarrow> Some i | Name nm \<Rightarrow> None) ks"

definition nameKeys :: "key list \<Rightarrow> key list" where
  "nameKeys ks = filter (\<lambda>k. case k of Idx i \<Rightarrow> False | Name nm \<Rightarrow> True) ks"

definition keys :: "obj \<Rightarrow> key list" where
  "keys x =
     (let ks = map fst (filter (\<lambda>(k, p). penum p) (props x))
      in map Idx (sort (indexKeys ks)) @ nameKeys ks)"

section \<open>observe, Observer and defineReactive\<close>

text \<open>
  Modelled from the spec: \<open>def(value, '__ob__', this)\<close>, a helper of \<open>util/lang\<close> that
  is not among the sources: it attaches "a hidden, non-enumerable back-reference to
  its wrapper": the own property \<open>__ob__\<close>, writable, not enumerable and
  configurable. (\<open>observe\<close> has checked that the object is extensible.)
\<close>

definition def_ob :: "nat \<Rightarrow> nat \<Rightarrow> state \<Rightarrow> state" where
  "def_ob a b s =
     (case getObj s a of
        Some x \<Rightarrow> putObj a (x\<lparr>props := setProp (Name ''__ob__'') (ObProp b True False True) (props x)\<rparr>) s
      | None \<Rightarrow> s)"

definition augment :: "nat \<Rightarrow> state \<Rightarrow> state" where
  "augment a s = (case getObj s a of Some x \<Rightarrow> putObj a (x\<lparr>augmented := True\<rparr>) s | None \<Rightarrow> s)"

definition incVmCount :: "nat \<Rightarrow> state \<Rightarrow> state" where
  "incVmCount b s =
     (case lookup (observers s) b of
        Some r \<Rightarrow> s\<lparr>observers := (observers s)[b := r\<lparr>vmCount := vmCount r + 1\<rparr>]\<rparr>
      | None \<Rightarrow> s)"


text \<open>
  \<open>observe\<close>, the Observer constructor, \<open>walk\<close>, \<open>observeArray\<close> and
  \<open>defineReactive\<close> call each other. Each is written first over the \<open>observe\<close> it
  calls for nested values (the argument \<open>obs\<close>), and the recursion is closed
  afterwards, over the nesting depth: every \<open>new Observer\<close> marks one more object of
  the store, and an object nested deeper than the bound uses the bound up.
  \<open>defineReactive\<close> takes \<open>val\<close> as an option, \<open>None\<close> when the call has two arguments
  (\<open>arguments.length === 2\<close>).
\<close>

type_synonym observe_fn = "val \<Rightarrow> bool \<Rightarrow> state \<Rightarrow> (nat option \<times> state) res"

definition newClosure ::
  "nat \<Rightarrow> nat \<Rightarrow> val \<Rightarrow> nat option \<Rightarrow> getter option \<Rightarrow> setter option \<Rightarrow> bool \<Rightarrow> bool \<Rightarrow> closure" where
  "newClosure a d v childOb g st shallow customSetter =
     \<lparr>cobj = a, cdep = d, cval = v, cchildOb = childOb, cgetter = g, csetter = st,
      cshallow = shallow, ccustomSetter = customSetter\<rparr>"

definition defineReactive_with ::
  "observe_fn \<Rightarrow> nat \<Rightarrow> nat \<Rightarrow> key \<Rightarrow> val option \<Rightarrow> bool \<Rightarrow> bool \<Rightarrow> state \<Rightarrow> state res" where
  "defineReactive_with obs n a k valopt customSetter shallow s =
     (let d = fst (newDep s); s1 = snd (newDep s) in
      case getObj s1 a of
        None \<Rightarrow> Throw TypeError
      | Some x \<Rightarrow>
          (let property = ownProp x k in
           if (case property of Some p \<Rightarrow> \<not> pconf p | None \<Rightarrow> False) then Ok s1
           else
             (let getter = getterOf property; setter = setterOf property in
              rbind (if (getter = None \<or> setter \<noteq> None) \<and> valopt = None
                     then getProp n a k s1
                     else Ok (case valopt of Some v \<Rightarrow> v | None \<Rightarrow> VUndef, s1))
                (\<lambda>(v, s2).
                   rbind (if shallow then Ok (None, s2) else obs v False s2)
                     (\<lambda>(childOb, s3).
                        defineProperty a k
                          (AccessorProp (Some (ReactiveGetter (length (closures s3))))
                             (Some (ReactiveSetter (length (closures s3)))) True True)
                          (s3\<lparr>closures := closures s3 @
                               [newClosure a d v childOb getter setter shallow customSetter]\<rparr>))))))"

fun walk_with :: "observe_fn \<Rightarrow> nat \<Rightarrow> nat \<Rightarrow> key list \<Rightarrow> state \<Rightarrow> state res" where
  "walk_with obs n a [] s = Ok s"
| "walk_with obs n a (k # ks) s =
     rbind (defineReactive_with obs n a k None False False s) (\<lambda>s1. walk_with obs n a ks s1)"

fun observeArray_with :: "observe_fn \<Rightarrow> val list \<Rightarrow> state \<Rightarrow> state res" where
  "observeArray_with obs [] s = Ok s"
| "observeArray_with obs (v # vs) s =
     rbind (obs v False s) (\<lambda>(r, s1). observeArray_with obs vs s1)"

text \<open>\<open>new Observer(value)\<close>; the result is the identity of the new Observer.\<close>

definition newObserver_with :: "observe_fn \<Rightarrow> nat \<Rightarrow> nat \<Rightarrow> state \<Rightarrow> (nat \<times> state) res" where
  "newObserver_with obs n a s =
     (let d = fst (newDep s); s1 = snd (newDep s);
          b = length (observers s1);
          s2 = s1\<lparr>observers := observers s1 @ [\<lparr>ovalue = a, odep = d, vmCount = 0\<rparr>]\<rparr>;
          s3 = def_ob a b s2
      in if isArray s3 (VRef a)
         then rbind (observeArray_with obs (elemsOf s3 (VRef a)) (augment a s3)) (\<lambda>s4. Ok (b, s4))
         else rbind (walk_with obs n a (case getObj s3 a of Some x \<Rightarrow> keys x | None \<Rightarrow> []) s3)
                (\<lambda>s4. Ok (b, s4)))"

definition observe_with :: "env \<Rightarrow> observe_fn \<Rightarrow> nat \<Rightarrow> observe_fn" where
  "observe_with e obs n value asRootData s =
     (case value of
        VRef a \<Rightarrow>
          (case getObj s a of
             None \<Rightarrow> Ok (None, s)
           | Some x \<Rightarrow>
               if isVNode x then Ok (None, s)
               else
                 rbind (if ob x \<noteq> None then Ok (ob x, s)
                        else if shouldObserve s \<and> \<not> serverRendering e
                                \<and> (kind x = Array \<or> kind x = Plain)
                                \<and> extensible x \<and> \<not> isVue x
                        then rbind (newObserver_with obs n a s) (\<lambda>(b, s'). Ok (Some b, s'))
                        else Ok (None, s))
                   (\<lambda>(r, s1).
                      case r of
                        Some b \<Rightarrow> if asRootData then Ok (Some b, incVmCount b s1) else Ok (Some b, s1)
                      | None \<Rightarrow> Ok (None, s1)))
      | _ \<Rightarrow> Ok (None, s))"

primrec observe :: "nat \<Rightarrow> env \<Rightarrow> observe_fn" where
  "observe 0 e = observe_with e (\<lambda>v r s. OutOfFuel) 0"
| "observe (Suc n) e = observe_with e (observe n e) n"

definition defineReactive ::
  "nat \<Rightarrow> env \<Rightarrow> nat \<Rightarrow> key \<Rightarrow> val option \<Rightarrow> bool \<Rightarrow> bool \<Rightarrow> state \<Rightarrow> state res" where
  "defineReactive n e = defineReactive_with (observe n e) n"

definition observeArray :: "nat \<Rightarrow> env \<Rightarrow> val list \<Rightarrow> state \<Rightarrow> state res" where
  "observeArray n e = observeArray_with (observe n e)"

section \<open>The setters and property assignment\<close>

definition setCval :: "nat \<Rightarrow> val \<Rightarrow> state \<Rightarrow> state" where
  "setCval c v s = s\<lparr>closures := (closures s)[c := (closures s ! c)\<lparr>cval := v\<rparr>]\<rparr>"

definition setChildOb :: "nat \<Rightarrow> nat option \<Rightarrow> state \<Rightarrow> state" where
  "setChildOb c b s = s\<lparr>closures := (closures s)[c := (closures s ! c)\<lparr>cchildOb := b\<rparr>]\<rparr>"

text \<open>\<open>newVal === value || (newVal !== newVal && value !== value)\<close>\<close>

definition unchanged :: "val \<Rightarrow> val \<Rightarrow> bool" where
  "unchanged newVal value =
     (strict_eq newVal value \<or> (\<not> strict_eq newVal newVal \<and> \<not> strict_eq value value))"

type_synonym setter_fn = "setter \<Rightarrow> val \<Rightarrow> state \<Rightarrow> (call list \<times> state) res"

text \<open>
  Calling a setter; \<open>rec\<close> calls the setter the property had before, which may be a
  \<open>reactiveSetter\<close> again. The result lists the calls made, in order.
\<close>

definition call_set_with :: "env \<Rightarrow> setter_fn \<Rightarrow> nat \<Rightarrow> setter_fn" where
  "call_set_with e rec n st newVal s =
     (case st of
        UserSetter c \<Rightarrow> Ok ([], s\<lparr>cells := (cells s)[c := newVal]\<rparr>)
      | ReactiveSetter c \<Rightarrow>
          (case lookup (closures s) c of
             None \<Rightarrow> Ok ([], s)
           | Some cl \<Rightarrow>
               rbind (case cgetter cl of Some g \<Rightarrow> call_get n g s | None \<Rightarrow> Ok (cval cl, s))
                 (\<lambda>(value, s1).
                    if unchanged newVal value then Ok ([], s1)
                    else
                      (let cs1 = (if \<not> production e \<and> ccustomSetter cl then [CCustomSetter] else [])
                       in if cgetter cl \<noteq> None \<and> csetter cl = None then Ok (cs1, s1)
                          else
                            rbind (case csetter cl of
                                     Some st' \<Rightarrow> rec st' newVal s1
                                   | None \<Rightarrow> Ok ([], setCval c newVal s1))
                              (\<lambda>(cs2, s2).
                                 rbind (if cshallow cl then Ok (None, s2)
                                        else observe n e newVal False s2)
                                   (\<lambda>(childOb, s3).
                                      Ok (cs1 @ cs2 @ fst (notify e (cdep cl) (setChildOb c childOb s3)),
                                          snd (notify e (cdep cl) (setChildOb c childOb s3)))))))))"

primrec call_set :: "nat \<Rightarrow> env \<Rightarrow> setter_fn" where
  "call_set 0 e = call_set_with e (\<lambda>st v s. OutOfFuel) 0"
| "call_set (Suc n) e = call_set_with e (call_set n e) (Suc n)"

text \<open>
  Writing an own data property: a property kept in \<open>props\<close>, an index of an array, or
  the \<open>length\<close> of an array (which pads with holes or truncates). The new length is
  converted to a number, and a RangeError is thrown unless that is an integer from 0
  to \<open>2^32 - 1\<close>.
\<close>

definition toNum :: "env \<Rightarrow> state \<Rightarrow> val \<Rightarrow> val" where
  "toNum e s v =
     (case v of VUndef \<Rightarrow> VNaN | VNull \<Rightarrow> VNum 0 | VBool b \<Rightarrow> VNum (if b then 1 else 0)
      | VNum l \<Rightarrow> VNum l | VNaN \<Rightarrow> VNaN | _ \<Rightarrow> toNumber e s v)"

definition resize :: "nat \<Rightarrow> val list \<Rightarrow> val list" where
  "resize n vs = take n vs @ replicate (n - length vs) VUndef"

definition writeData :: "env \<Rightarrow> state \<Rightarrow> obj \<Rightarrow> key \<Rightarrow> val \<Rightarrow> obj res" where
  "writeData e s x k v =
     (case map_of (props x) k of
        Some p \<Rightarrow> Ok (x\<lparr>props := setProp k (DataProp v (pwritable p) (penum p) (pconf p)) (props x)\<rparr>)
      | None \<Rightarrow>
          (case k of
             Idx i \<Rightarrow> Ok (x\<lparr>elems := (elems x)[i := v]\<rparr>)
           | Name nm \<Rightarrow>
               (case toNum e s v of
                  VNum l \<Rightarrow> if 0 \<le> l \<and> l < 2 ^ 32 then Ok (x\<lparr>elems := resize (nat l) (elems x)\<rparr>)
                            else Throw RangeError
                | _ \<Rightarrow> Throw RangeError)))"

text \<open>
  \<open>Object.prototype\<close> is not an object of the store; what the \<open>in\<close> operator needs
  of it is its property names.
\<close>

definition objectProtoKeys :: "string list" where
  "objectProtoKeys =
     [''constructor'', ''hasOwnProperty'', ''isPrototypeOf'', ''propertyIsEnumerable'',
      ''toLocaleString'', ''toString'', ''valueOf'', ''__proto__'', ''__defineGetter__'',
      ''__defineSetter__'', ''__lookupGetter__'', ''__lookupSetter__'']"

definition inObjectProto :: "key \<Rightarrow> bool" where
  "inObjectProto k = (case k of Name nm \<Rightarrow> nm \<in> set objectProtoKeys | Idx i \<Rightarrow> False)"

text \<open>\<open>key in target\<close>, for an object: the key is own or inherited.\<close>

definition inOp :: "obj \<Rightarrow> key \<Rightarrow> bool" where
  "inOp x k = (ownProp x k \<noteq> None \<or> k \<in> set (inherited x) \<or> inObjectProto k)"

text \<open>
  The assignment \<open>target[key] = val\<close> in strict mode. On an own property: through
  the setter of an accessor, a TypeError on a read-only property and on an accessor
  without setter. On a key that is not own and is inherited, the prototype chain
  decides; the members of \<open>Object.prototype\<close> are writable data properties, which
  an assignment shadows by an own property, except the accessor \<open>__proto__\<close>. A key
  that is not in the object becomes an own data property, with a TypeError when the
  object is not extensible.
\<close>

definition assign :: "nat \<Rightarrow> env \<Rightarrow> nat \<Rightarrow> key \<Rightarrow> val \<Rightarrow> state \<Rightarrow> (call list \<times> state) res" where
  "assign n e a k v s =
     (case getObj s a of
        None \<Rightarrow> Throw TypeError
      | Some x \<Rightarrow>
          (case ownProp x k of
             Some (DataProp _ w _ _) \<Rightarrow>
               if w then rbind (writeData e s x k v) (\<lambda>x'. Ok ([], putObj a x' s)) else Throw TypeError
           | Some (ObProp _ w _ _) \<Rightarrow>
               if w then rbind (writeData e s x k v) (\<lambda>x'. Ok ([], putObj a x' s)) else Throw TypeError
           | Some (AccessorProp _ (Some st) _ _) \<Rightarrow> call_set n e st v s
           | Some (AccessorProp _ None _ _) \<Rightarrow> Throw TypeError
           | None \<Rightarrow>
               if k \<in> set (inherited x) \<or> k = Name ''__proto__'' then assignInherited e a k v s
               else if \<not> extensible x then Throw TypeError
               else if kind x = Array \<and> (case k of Idx i \<Rightarrow> True | Name nm \<Rightarrow> False)
               then Ok ([], putObj a
                      (x\<lparr>elems := (resize (case k of Idx i \<Rightarrow> i | Name nm \<Rightarrow> 0) (elems x)) @ [v]\<rparr>) s)
               else Ok ([], putObj a (x\<lparr>props := setProp k (DataProp v True True True) (props x)\<rparr>) s)))"

section \<open>The array interceptor\<close>

text \<open>
  \<open>mutator\<close>, the function installed for each name of \<open>methodsToPatch\<close>; \<open>a\<close> is
  \<open>this\<close>. Reading \<open>ob.observeArray\<close> throws when \<open>this.__ob__\<close> is undefined.
\<close>

definition inserted :: "arrayMethod \<Rightarrow> val list \<Rightarrow> val list option" where
  "inserted m args =
     (case m of Push \<Rightarrow> Some args | Unshift \<Rightarrow> Some args | Splice \<Rightarrow> Some (drop 2 args)
      | _ \<Rightarrow> None)"

definition mutator ::
  "nat \<Rightarrow> env \<Rightarrow> arrayMethod \<Rightarrow> nat \<Rightarrow> val list \<Rightarrow> state \<Rightarrow> (val \<times> call list \<times> state) res" where
  "mutator n e m a args s =
     rbind (original e m a args s)
       (\<lambda>(result, s1).
          case obOf s1 (VRef a) of
            None \<Rightarrow> Throw TypeError
          | Some b \<Rightarrow>
              rbind (case inserted m args of Some vs \<Rightarrow> observeArray n e vs s1 | None \<Rightarrow> Ok s1)
                (\<lambda>s2. case obDep s2 b of
                        None \<Rightarrow> Throw TypeError
                      | Some d \<Rightarrow> Ok (result, fst (notify e d s2), snd (notify e d s2))))"

text \<open>
  The call \<open>target.splice(...)\<close>: the interceptor when the array has been
  augmented, the built-in otherwise.
\<close>

definition callSplice ::
  "nat \<Rightarrow> env \<Rightarrow> nat \<Rightarrow> val list \<Rightarrow> state \<Rightarrow> (val \<times> call list \<times> state) res" where
  "callSplice n e a args s =
     (case getObj s a of
        None \<Rightarrow> Throw TypeError
      | Some x \<Rightarrow>
          if augmented x then mutator n e Splice a args s
          else rbind (original e Splice a args s) (\<lambda>(result, s1). Ok (result, [], s1)))"

section \<open>set and del\<close>

text \<open>
  Modelled from the spec: \<open>isUndef\<close>, \<open>isPrimitive\<close>, \<open>isValidArrayIndex\<close> and
  \<open>hasOwn\<close> of \<open>shared/util\<close>, which are not among the sources. A key is an index
  (\<open>Idx\<close>) exactly when it is a valid array index; \<open>hasOwn\<close> is the own-property test
  ("an own, non-inherited property").
\<close>

definition isUndef :: "val \<Rightarrow> bool" where
  "isUndef v = (v = VUndef \<or> v = VNull)"

definition isPrimitive :: "val \<Rightarrow> bool" where
  "isPrimitive v = (case v of VStr _ \<Rightarrow> True | VNum _ \<Rightarrow> True | VNaN \<Rightarrow> True | VBool _ \<Rightarrow> True
                    | _ \<Rightarrow> False)"

definition isValidArrayIndex :: "key \<Rightarrow> bool" where
  "isValidArrayIndex k = (case k of Idx i \<Rightarrow> True | Name nm \<Rightarrow> False)"

definition hasOwn :: "obj \<Rightarrow> key \<Rightarrow> bool" where
  "hasOwn x k = (ownProp x k \<noteq> None)"

definition keyVal :: "key \<Rightarrow> val" where
  "keyVal k = (case k of Idx i \<Rightarrow> VNum (int i) | Name nm \<Rightarrow> VStr nm)"

definition keyIdx :: "key \<Rightarrow> nat" where
  "keyIdx k = (case k of Idx i \<Rightarrow> i | Name nm \<Rightarrow> 0)"

text \<open>\<open>target._isVue || (ob && ob.vmCount)\<close>, with \<open>ob = target.__ob__\<close>.\<close>

definition rootOrVue :: "state \<Rightarrow> obj \<Rightarrow> bool" where
  "rootOrVue s x =
     (isVue x \<or> (case ob x of
                    Some b \<Rightarrow> (case lookup (observers s) b of
                                 Some r \<Rightarrow> vmCount r \<noteq> 0 | None \<Rightarrow> False)
                  | None \<Rightarrow> False))"

definition warnUnless :: "env \<Rightarrow> bool \<Rightarrow> call list" where
  "warnUnless e b = (if \<not> production e \<and> b then [CWarn] else [])"

text \<open>
  \<open>set\<close> returns \<open>val\<close>; the result lists the calls made and the new store. A target
  that is not an object makes \<open>key in target\<close> throw.
\<close>

definition set_js :: "nat \<Rightarrow> env \<Rightarrow> val \<Rightarrow> key \<Rightarrow> val \<Rightarrow> state \<Rightarrow> (val \<times> call list \<times> state) res" where
  "set_js n e tgt k v s =
     (let cs0 = warnUnless e (isUndef tgt \<or> isPrimitive tgt) in
      case tgt of
        VRef a \<Rightarrow>
          (case getObj s a of
             None \<Rightarrow> Throw TypeError
           | Some x \<Rightarrow>
               if kind x = Array \<and> isValidArrayIndex k then
                 rbind (callSplice n e a [keyVal k, VNum 1, v]
                          (putObj a (x\<lparr>elems := resize (max (length (elems x)) (keyIdx k)) (elems x)\<rparr>) s))
                   (\<lambda>(r, cs, s1). Ok (v, cs0 @ cs, s1))
               else if inOp x k \<and> \<not> inObjectProto k then
                 rbind (assign n e a k v s) (\<lambda>(cs, s1). Ok (v, cs0 @ cs, s1))
               else if rootOrVue s x
               then Ok (v, cs0 @ warnUnless e True, s)
               else
                 (case ob x of
                    None \<Rightarrow> rbind (assign n e a k v s) (\<lambda>(cs, s1). Ok (v, cs0 @ cs, s1))
                  | Some b \<Rightarrow>
                      (case lookup (observers s) b of
                         None \<Rightarrow> Throw TypeError
                       | Some r \<Rightarrow>
                           rbind (defineReactive n e (ovalue r) k (Some v) False False s)
                             (\<lambda>s1. Ok (v, cs0 @ fst (notify e (odep r) s1),
                                        snd (notify e (odep r) s1))))))
      | _ \<Rightarrow> Throw TypeError)"

text \<open>\<open>delete target[key]\<close> in strict mode, for an own property.\<close>

definition deleteProp :: "nat \<Rightarrow> obj \<Rightarrow> key \<Rightarrow> state \<Rightarrow> state res" where
  "deleteProp a x k s =
     (case ownProp x k of
        None \<Rightarrow> Ok s
      | Some p \<Rightarrow>
          if \<not> pconf p then Throw TypeError
          else if map_of (props x) k \<noteq> None
          then Ok (putObj a (x\<lparr>props := filter (\<lambda>(k', q). k' \<noteq> k) (props x)\<rparr>) s)
          else Ok (putObj a (x\<lparr>elems := (elems x)[keyIdx k := VUndef]\<rparr>) s))"

text \<open>
  \<open>del\<close> returns nothing. On \<open>undefined\<close> and \<open>null\<close> the read \<open>target.__ob__\<close>
  throws; another primitive has no \<open>__ob__\<close>, and only a string has own keys (its
  indices and \<open>length\<close>, which cannot be deleted).
\<close>

definition del :: "nat \<Rightarrow> env \<Rightarrow> val \<Rightarrow> key \<Rightarrow> state \<Rightarrow> (call list \<times> state) res" where
  "del n e tgt k s =
     (let cs0 = warnUnless e (isUndef tgt \<or> isPrimitive tgt) in
      case tgt of
        VRef a \<Rightarrow>
          (case getObj s a of
             None \<Rightarrow> Throw TypeError
           | Some x \<Rightarrow>
               if kind x = Array \<and> isValidArrayIndex k then
                 rbind (callSplice n e a [keyVal k, VNum 1] s) (\<lambda>(r, cs, s1). Ok (cs0 @ cs, s1))
               else if rootOrVue s x
               then Ok (cs0 @ warnUnless e True, s)
               else if \<not> hasOwn x k then Ok (cs0, s)
               else
                 rbind (deleteProp a x k s)
                   (\<lambda>s1. case ob x of
                           None \<Rightarrow> Ok (cs0, s1)
                         | Some b \<Rightarrow>
                             (case obDep s1 b of
                                None \<Rightarrow> Throw TypeError
                              | Some d \<Rightarrow> Ok (cs0 @ fst (notify e d s1), snd (notify e d s1)))))
      | VUndef \<Rightarrow> Throw TypeError
      | VNull \<Rightarrow> Throw TypeError
      | VStr str \<Rightarrow>
          if (case k of Idx i \<Rightarrow> i < length str | Name nm \<Rightarrow> nm = ''length'')
          then Throw TypeError else Ok (cs0, s)
      | _ \<Rightarrow> Ok (cs0, s))"

section \<open>Example stores\<close>

text \<open>
  A development build with the asynchronous scheduler, watchers whose \<open>update\<close>
  leaves the store alone, built-in array methods that return \<open>undefined\<close>, strings
  and objects that convert to NaN, and inherited setters that do nothing.
\<close>

definition quiet_env :: env where
  "quiet_env = \<lparr>production = False, async = True, serverRendering = False,
     update = (\<lambda>w s. s), original = (\<lambda>m a args s. Ok (VUndef, s)),
     toNumber = (\<lambda>s v. VNaN), assignInherited = (\<lambda>a k v s. Ok ([], s))\<rparr>"

text \<open>Watchers whose \<open>update\<close> unsubscribes every watcher of every Dep.\<close>

definition dropping_env :: env where
  "dropping_env = quiet_env\<lparr>update := (\<lambda>w s. s\<lparr>deps := map (\<lambda>ws. []) (deps s)\<rparr>)\<rparr>"

definition empty_state :: state where
  "empty_state = \<lparr>objs = [], observers = [], deps = [], closures = [], cells = [],
     target = None, shouldObserve = True\<rparr>"

text \<open>
  An object literal with the given own properties, and an array with the given
  elements, which inherits the members of \<open>Array.prototype\<close>. \<open>obProp b\<close> is the
  property \<open>__ob__\<close> as the Observer \<open>b\<close> defines it on the object it observes.
\<close>

definition plainObj :: "(key \<times> pdesc) list \<Rightarrow> obj" where
  "plainObj ps = \<lparr>kind = Plain, props = ps, elems = [], extensible = True,
     inherited = [], isVNode = False, augmented = False\<rparr>"

definition arrayProtoKeys :: "key list" where
  "arrayProtoKeys = map Name
     [''at'', ''concat'', ''copyWithin'', ''entries'', ''every'', ''fill'', ''filter'', ''find'',
      ''findIndex'', ''findLast'', ''findLastIndex'', ''flat'', ''flatMap'', ''forEach'',
      ''includes'', ''indexOf'', ''join'', ''keys'', ''lastIndexOf'', ''map'', ''pop'', ''push'',
      ''reduce'', ''reduceRight'', ''reverse'', ''shift'', ''slice'', ''some'', ''sort'',
      ''splice'', ''unshift'', ''values'']"

definition arrayObj :: "val list \<Rightarrow> obj" where
  "arrayObj vs = \<lparr>kind = Array, props = [], elems = vs, extensible = True,
     inherited = arrayProtoKeys, isVNode = False, augmented = False\<rparr>"

definition obProp :: "nat \<Rightarrow> key \<times> pdesc" where
  "obProp b = (Name ''__ob__'', ObProp b True False True)"

text \<open>
  The object \<open>{a: 1}\<close>, and the store after \<open>observe\<close> of it: Observer 0 with
  Dep 0, and the closure of \<open>defineReactive\<close> for \<open>a\<close> with Dep 1.
\<close>

definition plain_state :: state where
  "plain_state = empty_state\<lparr>objs := [plainObj [(Name ''a'', DataProp (VNum 1) True True True)]]\<rparr>"

definition reactive_state :: state where
  "reactive_state = empty_state
     \<lparr>objs := [plainObj [(Name ''a'', AccessorProp (Some (ReactiveGetter 0))
                                     (Some (ReactiveSetter 0)) True True),
                         obProp 0]],
      observers := [\<lparr>ovalue = 0, odep = 0, vmCount = 0\<rparr>],
      deps := [[], []],
      closures := [newClosure 0 1 (VNum 1) None None None False False]\<rparr>"

text \<open>
  An object whose property \<open>a\<close> is an accessor with a getter and no setter (over
  cell 0, which holds 1), and the store after \<open>defineReactive\<close> of that property.
\<close>

definition accessor_state :: state where
  "accessor_state = empty_state
     \<lparr>objs := [plainObj [(Name ''a'', AccessorProp (Some (UserGetter 0)) None True True)]],
      cells := [VNum 1]\<rparr>"

definition getter_only_state :: state where
  "getter_only_state = empty_state
     \<lparr>objs := [plainObj [(Name ''a'', AccessorProp (Some (ReactiveGetter 0))
                                     (Some (ReactiveSetter 0)) True True)]],
      deps := [[]],
      closures := [newClosure 0 0 VUndef None (Some (UserGetter 0)) None False False],
      cells := [VNum 1]\<rparr>"

text \<open>An object whose property \<open>a\<close> is not configurable.\<close>

definition sealed_state :: state where
  "sealed_state = empty_state\<lparr>objs := [plainObj [(Name ''a'', DataProp (VNum 1) True True False)]]\<rparr>"





text \<open>
  An environment whose built-in \<open>push\<close> appends its arguments and returns the new
  length (the other built-in array methods are not used in the examples).
\<close>

definition push_env :: env where
  "push_env = quiet_env
     \<lparr>original := (\<lambda>m a args s.
        case m of
          Push \<Rightarrow>
            (case getObj s a of
               Some x \<Rightarrow> Ok (VNum (int (length (elems x @ args))),
                             putObj a (x\<lparr>elems := elems x @ args\<rparr>) s)
             | None \<Rightarrow> Throw TypeError)
        | _ \<Rightarrow> Ok (VUndef, s))\<rparr>"

text \<open>
  The observed empty array 0 (Observer 0, Dep 0, to which watcher 7 is subscribed) and
  the object \<open>{}\<close> at 1, not observed; \<open>pushed_state\<close> is the store after pushing
  object 1 onto the array.
\<close>

definition array_state :: state where
  "array_state = empty_state
     \<lparr>objs := [(arrayObj [])\<lparr>props := [obProp 0], augmented := True\<rparr>, plainObj []],
      observers := [\<lparr>ovalue = 0, odep = 0, vmCount = 0\<rparr>],
      deps := [[7]]\<rparr>"

definition pushed_state :: state where
  "pushed_state = empty_state
     \<lparr>objs := [(arrayObj [VRef 1])\<lparr>props := [obProp 0], augmented := True\<rparr>, plainObj [obProp 1]],
      observers := [\<lparr>ovalue = 0, odep = 0, vmCount = 0\<rparr>, \<lparr>ovalue = 1, odep = 1, vmCount = 0\<rparr>],
      deps := [[7], []]\<rparr>"

text \<open>
  The object \<open>{a: 1}\<close> observed as root data: the store \<open>reactive_state\<close> with
  \<open>vmCount\<close> 1 and watcher 7 subscribed to the Dep of the Observer.
\<close>

definition root_state :: state where
  "root_state = reactive_state
     \<lparr>observers := [\<lparr>ovalue = 0, odep = 0, vmCount = 1\<rparr>], deps := [[7], []]\<rparr>"



text \<open>
  An observed object (Observer 0, Dep 0, with watcher 7 subscribed) whose one reactive
  property is named \<open>toString\<close> and holds 1; \<open>rewrapped_state\<close> is the store after
  \<open>defineReactive\<close> of that key with the value 2.
\<close>

definition named_state :: state where
  "named_state = empty_state
     \<lparr>objs := [plainObj [(Name ''toString'', AccessorProp (Some (ReactiveGetter 0))
                                            (Some (ReactiveSetter 0)) True True),
                         obProp 0]],
      observers := [\<lparr>ovalue = 0, odep = 0, vmCount = 0\<rparr>],
      deps := [[7], []],
      closures := [newClosure 0 1 (VNum 1) None None None False False]\<rparr>"

definition rewrapped_state :: state where
  "rewrapped_state = named_state
     \<lparr>objs := [plainObj [(Name ''toString'', AccessorProp (Some (ReactiveGetter 1))
                                            (Some (ReactiveSetter 1)) True True),
                         obProp 0]],
      deps := [[7], [], []],
      closures := [newClosure 0 1 (VNum 1) None None None False False,
                   newClosure 0 2 (VNum 2) None (Some (ReactiveGetter 0))
                     (Some (ReactiveSetter 0)) False False]\<rparr>"

section \<open>Auxiliary notions for the proofs\<close>

text \<open>What a getter leaves alone: everything but the subscriber lists.\<close>

definition same_heap :: "state \<Rightarrow> state \<Rightarrow> bool" where
  "same_heap s s' = (objs s' = objs s \<and> observers s' = observers s \<and> closures s' = closures s
     \<and> cells s' = cells s \<and> target s' = target s \<and> shouldObserve s' = shouldObserve s
     \<and> length (deps s') = length (deps s))"


text \<open>
  What \<open>observe\<close> never does: remove an object of the store, change what kind of
  object it is or the Observer it has, make it a Vue instance, or change the Dep of an
  Observer. \<open>defineReactive\<close> does none of this either, on a key other than
  \<open>__ob__\<close>.
\<close>

definition ob_stable :: "state \<Rightarrow> state \<Rightarrow> bool" where
  "ob_stable s s' =
     (length (objs s') = length (objs s) \<and> shouldObserve s' = shouldObserve s
      \<and> (\<forall>a < length (objs s).
            isVNode (objs s' ! a) = isVNode (objs s ! a)
            \<and> kind (objs s' ! a) = kind (objs s ! a)
            \<and> extensible (objs s' ! a) = extensible (objs s ! a)
            \<and> (isVue (objs s' ! a) \<longrightarrow> isVue (objs s ! a))
            \<and> (\<forall>b. ob (objs s ! a) = Some b \<longrightarrow> ob (objs s' ! a) = Some b))
      \<and> (\<forall>b d. obDep s b = Some d \<longrightarrow> obDep s' b = Some d))"

definition obs_ok :: "observe_fn \<Rightarrow> bool" where
  "obs_ok obs = (\<forall>v r s res s'. obs v r s = Ok (res, s') \<longrightarrow> ob_stable s s')"

text \<open>
  The elements of a list of values and, through every element that is an array, the
  elements nested in it, in the order in which \<open>dependArray\<close> visits them.
\<close>

fun nestedElems :: "nat \<Rightarrow> state \<Rightarrow> val list \<Rightarrow> val list" where
  "nestedElems n s [] = []"
| "nestedElems n s (v # vs) =
     v # (if isArray s v then (case n of 0 \<Rightarrow> [] | Suc m \<Rightarrow> nestedElems m s (elemsOf s v)) else [])
       @ nestedElems n s vs"



definition subs_mono :: "state \<Rightarrow> state \<Rightarrow> bool" where
  "subs_mono s s' = (\<forall>d w. w \<in> set (subs s d) \<longrightarrow> w \<in> set (subs s' d))"

text \<open>The values for which \<open>observe\<close> returns an Observer.\<close>

definition observable :: "env \<Rightarrow> state \<Rightarrow> val \<Rightarrow> bool" where
  "observable e s v =
     (case v of
        VRef a \<Rightarrow>
          (case getObj s a of
             Some x \<Rightarrow>
               \<not> isVNode x
               \<and> (ob x \<noteq> None
                  \<or> shouldObserve s \<and> \<not> serverRendering e \<and> (kind x = Array \<or> kind x = Plain)
                    \<and> extensible x \<and> \<not> isVue x)
           | None \<Rightarrow> False)
      | _ \<Rightarrow> False)"

text \<open>
  One \<open>observe\<close> extends another when it returns what the other returns, wherever the
  other returns.
\<close>

definition extends_obs :: "observe_fn \<Rightarrow> observe_fn \<Rightarrow> bool" where
  "extends_obs f g = (\<forall>v r s res. f v r s = Ok res \<longrightarrow> g v r s = Ok res)"

definition le_res :: "'a res \<Rightarrow> 'a res \<Rightarrow> bool" where
  "le_res r r' = (\<forall>x. r = Ok x \<longrightarrow> r' = Ok x)"

definition extends_set :: "setter_fn \<Rightarrow> setter_fn \<Rightarrow> bool" where
  "extends_set f g = (\<forall>st v s res. f st v s = Ok res \<longrightarrow> g st v s = Ok res)"

text \<open>
  The number of objects without Observer; a store of plain data, where every object
  without Observer has data properties only, under distinct keys; and the objects
  whose properties a call may change: those it walks (\<open>A\<close>), and those that get their
  Observer during the call.
\<close>

definition unobserved :: "state \<Rightarrow> nat" where
  "unobserved s = length (filter (\<lambda>x. ob x = None) (objs s))"

definition data_store :: "state \<Rightarrow> bool" where
  "data_store s =
     (\<forall>x \<in> set (objs s). ob x = None \<longrightarrow>
        distinct (map fst (props x)) \<and> (\<forall>kp \<in> set (props x). is_DataProp (snd kp)))"

definition props_frame :: "nat set \<Rightarrow> state \<Rightarrow> state \<Rightarrow> bool" where
  "props_frame A s s' =
     (\<forall>a x x'. a \<notin> A \<longrightarrow> getObj s a = Some x \<longrightarrow> getObj s' a = Some x'
        \<longrightarrow> (ob x \<noteq> None \<or> ob x' = None) \<longrightarrow> props x' = props x)"

definition obs_total :: "nat \<Rightarrow> observe_fn \<Rightarrow> bool" where
  "obs_total K obs =
     (\<forall>v r s. data_store s \<and> unobserved s \<le> K \<longrightarrow>
        (\<exists>res s'. obs v r s = Ok (res, s') \<and> props_frame {} s s'))"

definition obs_frame :: "observe_fn \<Rightarrow> bool" where
  "obs_frame obs = (\<forall>v r s res s'. obs v r s = Ok (res, s') \<longrightarrow> props_frame {} s s')"

text \<open>
  \<open>set\<close> and \<open>del\<close> read \<open>target.__ob__\<close> and \<open>target._isVue\<close> and take the first
  for an Observer. That is what the framework puts under these keys: an object is
  well-formed when its own \<open>__ob__\<close>, if it has one, holds an Observer, and its own
  \<open>_isVue\<close>, if it has one, is a data property.
\<close>

definition hidden_wf :: "obj \<Rightarrow> bool" where
  "hidden_wf x =
     ((case map_of (props x) (Name ''__ob__'') of None \<Rightarrow> True | Some p \<Rightarrow> is_ObProp p)
      \<and> (case map_of (props x) (Name ''_isVue'') of None \<Rightarrow> True | Some p \<Rightarrow> is_DataProp p))"

section \<open>Basic facts\<close>

lemma rbind_Ok_iff: "rbind m f = Ok y \<longleftrightarrow> (\<exists>x. m = Ok x \<and> f x = Ok y)"
  by (cases m) auto

lemma lookup_Some_iff: "lookup xs i = Some x \<longleftrightarrow> i < length xs \<and> xs ! i = x"
  by (auto simp: lookup_def)

lemma lookup_None_iff: "lookup xs i = None \<longleftrightarrow> length xs \<le> i"
  by (auto simp: lookup_def)

lemma same_heap_refl [simp]: "same_heap s s"
  by (simp add: same_heap_def)

lemma same_heap_trans: "same_heap s s1 \<Longrightarrow> same_heap s1 s2 \<Longrightarrow> same_heap s s2"
  by (simp add: same_heap_def)

lemma same_heap_addDep: "same_heap s (addDep w d s)"
  by (simp add: same_heap_def addDep_def addSub_def)

lemma same_heap_depend: "same_heap s (depend d s)"
  by (simp add: depend_def same_heap_addDep split: option.splits)

lemma same_heap_dependOb: "same_heap s (dependOb b s)"
  by (simp add: dependOb_def same_heap_depend split: option.splits)

lemma same_heap_dependElem: "same_heap s (dependElem v s)"
  by (simp add: dependElem_def same_heap_dependOb split: option.splits)

lemma same_heap_dependArray: "dependArray n vs s = Ok s' \<Longrightarrow> same_heap s s'"
proof (induction n vs s arbitrary: s' rule: dependArray.induct)
  case (1 n s)
  then show ?case by simp
next
  case (2 n v vs s)
  from "2.prems" obtain s2 where
    a: "(if isArray s v then (case n of 0 \<Rightarrow> OutOfFuel | Suc m \<Rightarrow> dependArray m (elemsOf s v) (dependElem v s)) else Ok (dependElem v s)) = Ok s2"
    and b: "dependArray n vs s2 = Ok s'"
    by (auto simp: rbind_Ok_iff)
  have h2: "same_heap (dependElem v s) s2"
  proof (cases "isArray s v")
    case True
    with a obtain m where n: "n = Suc m" and c: "dependArray m (elemsOf s v) (dependElem v s) = Ok s2"
      by (cases n) auto
    show ?thesis using "2.IH"(1)[OF True n c] .
  next
    case False
    with a show ?thesis by simp
  qed
  have h3: "same_heap s2 s'"
    using "2.IH"(2)[OF b] .
  show ?case using same_heap_dependElem[of s v] h2 h3 same_heap_trans by blast
qed

lemma same_heap_subscribeRead: "subscribeRead n cl v s = Ok (v', s') \<Longrightarrow> v' = v \<and> same_heap s s'"
  by (auto simp: subscribeRead_def rbind_Ok_iff split: option.splits if_splits
      dest!: same_heap_dependArray
      intro: same_heap_trans[OF same_heap_depend same_heap_dependOb]
             same_heap_trans[OF same_heap_trans[OF same_heap_depend same_heap_dependOb]]
             same_heap_depend)

lemma same_heap_call_get: "call_get n g s = Ok (v, s') \<Longrightarrow> same_heap s s'"
proof (induction n g s arbitrary: v s' rule: call_get.induct)
  case (1 n c s)
  then show ?case by auto
next
  case (2 n c s)
  show ?case
  proof (cases "lookup (closures s) c")
    case None
    with "2.prems" show ?thesis by auto
  next
    case (Some cl)
    with "2.prems" obtain vl s1 where
      a: "(case cgetter cl of Some g \<Rightarrow> (case n of 0 \<Rightarrow> OutOfFuel | Suc m \<Rightarrow> call_get m g s) | None \<Rightarrow> Ok (cval cl, s)) = Ok (vl, s1)"
      and b: "subscribeRead n cl vl s1 = Ok (v, s')"
      by (auto simp: rbind_Ok_iff)
    have h1: "same_heap s s1"
    proof (cases "cgetter cl")
      case None
      with a show ?thesis by simp
    next
      case (Some g)
      with a obtain m where n: "n = Suc m" and c: "call_get m g s = Ok (vl, s1)"
        by (cases n) auto
      show ?thesis using "2.IH"[OF \<open>lookup (closures s) c = Some cl\<close> Some n c] .
    qed
    from same_heap_subscribeRead[OF b] h1 show ?thesis using same_heap_trans by blast
  qed
qed

lemma notify_loop_calls: "fst (notify_loop e ws s) = map CUpdate ws"
  by (induction ws arbitrary: s) (simp_all add: split_beta)

lemma notify_loop_store: "snd (notify_loop e ws s) = fold (update e) ws s"
  by (induction ws arbitrary: s) (simp_all add: split_beta)

lemma fst_notify:
  "fst (notify e d s) =
     CNotify d # map CUpdate (if \<not> production e \<and> \<not> async e then sort (subs s d) else subs s d)"
  by (simp add: notify_def Let_def split_beta notify_loop_calls)

lemma snd_notify:
  "snd (notify e d s) =
     fold (update e) (if \<not> production e \<and> \<not> async e then sort (subs s d) else subs s d) s"
  by (simp add: notify_def Let_def split_beta notify_loop_store)

lemma call_set_unfold:
  "call_set n e = call_set_with e (case n of 0 \<Rightarrow> (\<lambda>st v s. OutOfFuel) | Suc m \<Rightarrow> call_set m e) n"
  by (cases n) simp_all

section \<open>Own properties and the hidden ones\<close>

lemma map_of_setProp: "map_of (setProp k p ps) k = Some p"
  by (induction ps) (auto simp: setProp_def image_iff split: if_splits)

lemma map_of_map_other:
  "k' \<noteq> k \<Longrightarrow> map_of (map (\<lambda>(k', q). if k' = k then (k, p) else (k', q)) ps) k' = map_of ps k'"
  by (induction ps) auto

lemma map_of_setProp_other: "k' \<noteq> k \<Longrightarrow> map_of (setProp k p ps) k' = map_of ps k'"
  by (cases "map_of ps k'") (simp_all add: setProp_def map_of_map_other map_add_def)

lemma setProp_entry: "(k, q) \<in> set (setProp k p ps) \<Longrightarrow> q = p"
  by (force simp: setProp_def image_iff split: if_splits)

lemma setProp_entry_other: "k' \<noteq> k \<Longrightarrow> (k', q) \<in> set (setProp k p ps) \<longleftrightarrow> (k', q) \<in> set ps"
  by (force simp: setProp_def image_iff split: if_splits)

lemma map_fst_setProp:
  "map fst (setProp k p ps) = (if k \<in> fst ` set ps then map fst ps else map fst ps @ [k])"
  by (induction ps) (auto simp: setProp_def)

lemma ob_props_other:
  "map_of ps (Name ''__ob__'') = map_of (props x) (Name ''__ob__'') \<Longrightarrow> ob (x\<lparr>props := ps\<rparr>) = ob x"
  by (simp add: ob_def)

lemma isVue_props_other:
  "map_of ps (Name ''_isVue'') = map_of (props x) (Name ''_isVue'') \<Longrightarrow> isVue (x\<lparr>props := ps\<rparr>) = isVue x"
  by (simp add: isVue_def)

lemma ob_setProp: "k \<noteq> Name ''__ob__'' \<Longrightarrow> ob (x\<lparr>props := setProp k p (props x)\<rparr>) = ob x"
  by (simp add: ob_def map_of_setProp_other)

lemma ob_def_ob: "ob (x\<lparr>props := setProp (Name ''__ob__'') (ObProp b w en cf) (props x)\<rparr>) = Some b"
  by (simp add: ob_def map_of_setProp)

lemma ob_augmented [simp]: "ob (x\<lparr>augmented := t\<rparr>) = ob x"
  by (simp add: ob_def)

lemma isVue_augmented [simp]: "isVue (x\<lparr>augmented := t\<rparr>) = isVue x"
  by (simp add: isVue_def)

lemma ob_elems [simp]: "ob (x\<lparr>elems := vs\<rparr>) = ob x"
  by (simp add: ob_def)

lemma isVue_elems [simp]: "isVue (x\<lparr>elems := vs\<rparr>) = isVue x"
  by (simp add: isVue_def)

lemma keys_parts: "Idx ` set (indexKeys ks) \<union> set (nameKeys ks) = set ks"
  by (induction ks) (auto simp: indexKeys_def nameKeys_def List.map_filter_simps split: key.splits)

lemma set_keys: "set (keys x) = {k. \<exists>p. (k, p) \<in> set (props x) \<and> penum p}"
  by (force simp: keys_def Let_def keys_parts image_iff)

lemma distinct_indexKeys: "distinct ks \<Longrightarrow> distinct (indexKeys ks)"
  by (induction ks)
     (auto simp: indexKeys_def List.map_filter_simps List.map_filter_def split: key.splits option.splits)

lemma distinct_keys: "distinct (map fst (props x)) \<Longrightarrow> distinct (keys x)"
proof -
  assume d: "distinct (map fst (props x))"
  let ?ks = "map fst (filter (\<lambda>(k, p). penum p) (props x))"
  have dk: "distinct ?ks" using d by (rule distinct_map_filter)
  have n: "distinct (nameKeys ?ks)" using dk by (simp add: nameKeys_def)
  have "distinct (map Idx (sort (indexKeys ?ks)))"
    using distinct_indexKeys[OF dk] by (simp add: distinct_map inj_on_def)
  moreover have "set (map Idx (sort (indexKeys ?ks))) \<inter> set (nameKeys ?ks) = {}"
    by (auto simp: nameKeys_def)
  ultimately show ?thesis using n by (simp add: keys_def Let_def)
qed

lemma isVue_setProp:
  "k \<noteq> Name ''_isVue'' \<or> \<not> is_DataProp p
   \<Longrightarrow> isVue (x\<lparr>props := setProp k p (props x)\<rparr>) \<Longrightarrow> isVue x"
  by (cases "k = Name ''_isVue''"; cases p)
     (simp_all add: isVue_def map_of_setProp map_of_setProp_other)

lemma keys_def_ob:
  "Name ''__ob__'' \<notin> set (keys (x\<lparr>props := setProp (Name ''__ob__'') (ObProp b w False cf) (props x)\<rparr>))"
  by (auto simp: set_keys dest: setProp_entry)

section \<open>What observe and defineReactive preserve\<close>

lemma ob_stable_refl [simp]: "ob_stable s s"
  by (simp add: ob_stable_def)

lemma ob_stable_trans: "ob_stable s s1 \<Longrightarrow> ob_stable s1 s2 \<Longrightarrow> ob_stable s s2"
  unfolding ob_stable_def by (intro conjI allI impI) auto

lemma ob_stable_objs:
  "objs s' = objs s \<Longrightarrow> observers s' = observers s \<Longrightarrow> shouldObserve s' = shouldObserve s
   \<Longrightarrow> ob_stable s s'"
  by (simp add: ob_stable_def obDep_def)

lemma same_heap_ob_stable: "same_heap s s' \<Longrightarrow> ob_stable s s'"
  by (simp add: ob_stable_def same_heap_def obDep_def)

lemma ob_stable_putObj:
  "getObj s a = Some x \<Longrightarrow> isVNode x' = isVNode x \<Longrightarrow> kind x' = kind x
   \<Longrightarrow> extensible x' = extensible x \<Longrightarrow> (isVue x' \<Longrightarrow> isVue x)
   \<Longrightarrow> (\<And>b. ob x = Some b \<Longrightarrow> ob x' = Some b) \<Longrightarrow> ob_stable s (putObj a x' s)"
  by (auto simp: ob_stable_def putObj_def getObj_def lookup_Some_iff nth_list_update obDep_def)

lemma ob_stable_getProp: "getProp n a k s = Ok (v, s') \<Longrightarrow> ob_stable s s'"
  by (auto simp: getProp_def split: option.splits pdesc.splits
      dest!: same_heap_call_get same_heap_ob_stable)

lemma ob_stable_setProp:
  assumes "getObj s a = Some x" and "k \<noteq> Name ''__ob__''"
    and "k \<noteq> Name ''_isVue'' \<or> \<not> is_DataProp p"
  shows "ob_stable s (putObj a (x\<lparr>props := setProp k p (props x)\<rparr>) s)"
proof (rule ob_stable_putObj[OF assms(1)])
  show "isVue (x\<lparr>props := setProp k p (props x)\<rparr>) \<Longrightarrow> isVue x"
    by (rule isVue_setProp[OF assms(3)])
  show "\<And>b. ob x = Some b \<Longrightarrow> ob (x\<lparr>props := setProp k p (props x)\<rparr>) = Some b"
    by (simp add: ob_setProp[OF assms(2)])
qed simp_all

lemma ob_stable_defineProperty:
  assumes "defineProperty a k p s = Ok s'" and "k \<noteq> Name ''__ob__''"
    and "k \<noteq> Name ''_isVue'' \<or> \<not> is_DataProp p"
  shows "ob_stable s s'"
proof (cases "getObj s a")
  case None
  with assms(1) show ?thesis by (simp add: defineProperty_def)
next
  case (Some x)
  from assms(1) Some have "s' = putObj a (x\<lparr>props := setProp k p (props x)\<rparr>) s"
    by (auto simp: defineProperty_def split: option.splits if_splits)
  then show ?thesis using ob_stable_setProp[OF Some assms(2,3)] by simp
qed

lemma ob_stable_defineReactive_with:
  assumes "obs_ok obs" and "defineReactive_with obs n a k valopt cs sh s = Ok s'"
    and nk: "k \<noteq> Name ''__ob__''"
  shows "ob_stable s s'"
proof -
  let ?s1 = "snd (newDep s)"
  have s1: "ob_stable s ?s1" by (simp add: newDep_def ob_stable_objs)
  show ?thesis
  proof (cases "getObj ?s1 a")
    case None
    with assms(2) show ?thesis by (simp add: defineReactive_with_def Let_def)
  next
    case (Some x)
    show ?thesis
    proof (cases "case ownProp x k of Some p \<Rightarrow> \<not> pconf p | None \<Rightarrow> False")
      case True
      with assms(2) Some s1 show ?thesis by (simp add: defineReactive_with_def Let_def)
    next
      case False
      with assms(2) Some obtain v s2 childOb s3 where
        a: "(if (getterOf (ownProp x k) = None \<or> setterOf (ownProp x k) \<noteq> None) \<and> valopt = None
             then getProp n a k ?s1
             else Ok (case valopt of Some v \<Rightarrow> v | None \<Rightarrow> VUndef, ?s1)) = Ok (v, s2)"
        and b: "(if sh then Ok (None, s2) else obs v False s2) = Ok (childOb, s3)"
        and c: "defineProperty a k
                  (AccessorProp (Some (ReactiveGetter (length (closures s3))))
                     (Some (ReactiveSetter (length (closures s3)))) True True)
                  (s3\<lparr>closures := closures s3 @
                       [newClosure a (fst (newDep s)) v childOb (getterOf (ownProp x k))
                          (setterOf (ownProp x k)) sh cs]\<rparr>) = Ok s'"
        by (auto simp: defineReactive_with_def Let_def rbind_Ok_iff)
      have h2: "ob_stable ?s1 s2"
        using a by (auto split: if_splits dest: ob_stable_getProp)
      have h3: "ob_stable s2 s3"
        using b assms(1) by (auto simp: obs_ok_def split: if_splits)
      have h4: "ob_stable s3 s'"
        using ob_stable_defineProperty[OF c nk] by (simp add: ob_stable_def obDep_def)
      show ?thesis using s1 h2 h3 h4 ob_stable_trans by blast
    qed
  qed
qed

lemma ob_stable_walk_with:
  "obs_ok obs \<Longrightarrow> walk_with obs n a ks s = Ok s' \<Longrightarrow> Name ''__ob__'' \<notin> set ks
   \<Longrightarrow> ob_stable s s'"
proof (induction ks arbitrary: s)
  case Nil
  then show ?case by simp
next
  case (Cons k ks)
  from Cons.prems(2) obtain s1 where a: "defineReactive_with obs n a k None False False s = Ok s1"
    and b: "walk_with obs n a ks s1 = Ok s'"
    by (auto simp: rbind_Ok_iff)
  from Cons.prems(3) have nk: "k \<noteq> Name ''__ob__''" and nks: "Name ''__ob__'' \<notin> set ks"
    by auto
  from ob_stable_defineReactive_with[OF Cons.prems(1) a nk] Cons.IH[OF Cons.prems(1) b nks]
  show ?case by (rule ob_stable_trans)
qed

lemma ob_stable_observeArray_with:
  "obs_ok obs \<Longrightarrow> observeArray_with obs vs s = Ok s' \<Longrightarrow> ob_stable s s'"
proof (induction vs arbitrary: s)
  case Nil
  then show ?case by simp
next
  case (Cons v vs)
  from Cons.prems(2) obtain r s1 where a: "obs v False s = Ok (r, s1)"
    and b: "observeArray_with obs vs s1 = Ok s'"
    by (auto simp: rbind_Ok_iff)
  from a Cons.prems(1) have "ob_stable s s1" by (auto simp: obs_ok_def)
  with Cons.IH[OF Cons.prems(1) b] show ?case using ob_stable_trans by blast
qed

lemma def_ob_putObj:
  "getObj s a = Some x
   \<Longrightarrow> def_ob a b s = putObj a (x\<lparr>props := setProp (Name ''__ob__'') (ObProp b True False True) (props x)\<rparr>) s"
  by (simp add: def_ob_def)

lemma ob_stable_def_ob:
  assumes "getObj s a = Some x" and "ob x = None"
  shows "ob_stable s (def_ob a b s)"
  unfolding def_ob_putObj[OF assms(1)]
proof (rule ob_stable_putObj[OF assms(1)])
  show "isVue (x\<lparr>props := setProp (Name ''__ob__'') (ObProp b True False True) (props x)\<rparr>) \<Longrightarrow> isVue x"
    using isVue_setProp[of "Name ''__ob__''" "ObProp b True False True" x] by simp
qed (simp_all add: assms(2))

lemma getObj_putObj_same: "getObj s a = Some x \<Longrightarrow> getObj (putObj a x' s) a = Some x'"
  by (auto simp: getObj_def putObj_def lookup_def split: if_splits)

lemma getObj_putObj_other: "a' \<noteq> a \<Longrightarrow> getObj (putObj a x' s) a' = getObj s a'"
  by (simp add: getObj_def putObj_def lookup_def)

lemma ob_stable_augment: "ob_stable s (augment a s)"
  by (auto simp: augment_def split: option.splits intro!: ob_stable_putObj)

lemma obOf_def_ob: "getObj s a = Some x \<Longrightarrow> obOf (def_ob a b s) (VRef a) = Some b"
  by (simp add: def_ob_putObj obOf_def getObj_putObj_same ob_def_ob)

lemma ob_stable_obOf: "ob_stable s s' \<Longrightarrow> obOf s v = Some b \<Longrightarrow> obOf s' v = Some b"
  by (auto simp: ob_stable_def obOf_def getObj_def lookup_def split: val.splits if_splits)

lemma ob_stable_isVNode:
  "ob_stable s s' \<Longrightarrow> getObj s a = Some x \<Longrightarrow> \<exists>x'. getObj s' a = Some x' \<and> isVNode x' = isVNode x"
  by (auto simp: ob_stable_def getObj_def lookup_def split: if_splits)

lemma newObserver_with_ob:
  assumes "obs_ok obs" and "getObj s a = Some x" and "ob x = None"
    and "newObserver_with obs n a s = Ok (b, s')"
  shows "ob_stable s s' \<and> obOf s' (VRef a) = Some b"
proof -
  define s2 where "s2 = (snd (newDep s))\<lparr>observers := observers (snd (newDep s))
      @ [\<lparr>ovalue = a, odep = fst (newDep s), vmCount = 0\<rparr>]\<rparr>"
  define s3 where "s3 = def_ob a (length (observers (snd (newDep s)))) s2"
  have g2: "getObj s2 a = Some x" using assms(2) by (simp add: s2_def getObj_def newDep_def)
  have h2: "ob_stable s s2"
    by (auto simp: s2_def newDep_def ob_stable_def obDep_def lookup_def nth_append split: if_splits)
  have h3: "ob_stable s2 s3" unfolding s3_def by (rule ob_stable_def_ob[OF g2 assms(3)])
  have o3: "obOf s3 (VRef a) = Some (length (observers (snd (newDep s))))"
    unfolding s3_def by (rule obOf_def_ob[OF g2])
  from assms(4) obtain s4 where b: "b = length (observers (snd (newDep s)))"
    and c: "(if isArray s3 (VRef a) then observeArray_with obs (elemsOf s3 (VRef a)) (augment a s3)
             else walk_with obs n a (case getObj s3 a of Some x \<Rightarrow> keys x | None \<Rightarrow> []) s3) = Ok s4"
    and d: "s' = s4"
    by (auto simp: newObserver_with_def Let_def s2_def s3_def rbind_Ok_iff split: if_splits)
  have k3: "Name ''__ob__'' \<notin> set (case getObj s3 a of Some x \<Rightarrow> keys x | None \<Rightarrow> [])"
    unfolding s3_def def_ob_putObj[OF g2] by (simp add: getObj_putObj_same[OF g2] keys_def_ob)
  have h4: "ob_stable s3 s4"
  proof (cases "isArray s3 (VRef a)")
    case True
    with c have "observeArray_with obs (elemsOf s3 (VRef a)) (augment a s3) = Ok s4" by simp
    from ob_stable_trans[OF ob_stable_augment ob_stable_observeArray_with[OF assms(1) this]]
    show ?thesis .
  next
    case False
    with c have "walk_with obs n a (case getObj s3 a of Some x \<Rightarrow> keys x | None \<Rightarrow> []) s3 = Ok s4"
      by simp
    from ob_stable_walk_with[OF assms(1) this k3] show ?thesis .
  qed
  show ?thesis
    using h2 h3 h4 o3 b d ob_stable_trans ob_stable_obOf by blast
qed

lemma ob_stable_incVmCount: "ob_stable s (incVmCount b s)"
  by (auto simp: incVmCount_def ob_stable_def obDep_def lookup_def nth_list_update
      split: option.splits if_splits)

lemma getObj_incVmCount [simp]: "getObj (incVmCount b s) a = getObj s a"
  by (simp add: incVmCount_def getObj_def split: option.splits)

lemma obOf_incVmCount: "obOf (incVmCount b s) v = obOf s v"
  by (simp add: obOf_def split: val.splits)

lemma observe_with_ob:
  assumes "obs_ok obs" and "observe_with e obs n v r s = Ok (res, s')"
  shows "ob_stable s s' \<and> (\<forall>b. res = Some b \<longrightarrow> obOf s' v = Some b)
         \<and> (res = None \<longrightarrow> s' = s)"
proof (cases v)
  case (VRef a)
  show ?thesis
  proof (cases "getObj s a")
    case None
    with assms(2) VRef show ?thesis by (simp add: observe_with_def)
  next
    case (Some x)
    show ?thesis
    proof (cases "isVNode x")
      case True
      with assms(2) VRef Some show ?thesis by (simp add: observe_with_def)
    next
      case False
      show ?thesis
      proof (cases "ob x")
        case (Some b)
        with assms(2) VRef \<open>getObj s a = Some x\<close> False show ?thesis
          by (auto simp: observe_with_def ob_stable_incVmCount obOf_incVmCount obOf_def
              split: if_splits)
      next
        case None
        show ?thesis
        proof (cases "shouldObserve s \<and> \<not> serverRendering e \<and> (kind x = Array \<or> kind x = Plain)
                      \<and> extensible x \<and> \<not> isVue x")
          case True
          with assms(2) VRef \<open>getObj s a = Some x\<close> False None obtain b s1 where
            a: "newObserver_with obs n a s = Ok (b, s1)"
            and b: "res = Some b" and c: "s' = (if r then incVmCount b s1 else s1)"
            by (auto simp: observe_with_def rbind_Ok_iff split: if_splits)
          from newObserver_with_ob[OF assms(1) \<open>getObj s a = Some x\<close> None a]
          show ?thesis using b c VRef
            by (auto simp: obOf_incVmCount intro: ob_stable_trans[OF _ ob_stable_incVmCount])
        next
          case False
          with assms(2) VRef \<open>getObj s a = Some x\<close> \<open>\<not> isVNode x\<close> None show ?thesis
            by (auto simp: observe_with_def)
        qed
      qed
    qed
  qed
qed (use assms(2) in \<open>auto simp: observe_with_def\<close>)

lemma obs_ok_observe_with: "obs_ok obs \<Longrightarrow> obs_ok (observe_with e obs n)"
  unfolding obs_ok_def[of "observe_with e obs n"] using observe_with_ob by blast

lemma obs_ok_observe: "obs_ok (observe n e)"
  by (induction n) (simp_all add: obs_ok_observe_with obs_ok_def[of "\<lambda>v r s. OutOfFuel"])

lemma observe_unfold:
  "observe n e = observe_with e (case n of 0 \<Rightarrow> (\<lambda>v r s. OutOfFuel) | Suc m \<Rightarrow> observe m e)
                   (case n of 0 \<Rightarrow> 0 | Suc m \<Rightarrow> m)"
  by (cases n) simp_all

lemma obs_ok_rec: "obs_ok (case n of 0 \<Rightarrow> (\<lambda>v r s. OutOfFuel) | Suc m \<Rightarrow> observe m e)"
  by (cases n) (simp_all add: obs_ok_observe obs_ok_def[of "\<lambda>v r s. OutOfFuel"])

lemma observe_ob:
  assumes "observe n e v r s = Ok (res, s')"
  shows "ob_stable s s' \<and> (\<forall>b. res = Some b \<longrightarrow> obOf s' v = Some b) \<and> (res = None \<longrightarrow> s' = s)"
proof -
  have "observe_with e (case n of 0 \<Rightarrow> (\<lambda>v r s. OutOfFuel) | Suc m \<Rightarrow> observe m e)
          (case n of 0 \<Rightarrow> 0 | Suc m \<Rightarrow> m) v r s = Ok (res, s')"
    using assms by (simp add: observe_unfold[of n])
  from observe_with_ob[OF obs_ok_rec this] show ?thesis .
qed

lemma observe_Some_not_VNode:
  assumes "observe n e v r s = Ok (Some b, s')"
  shows "\<exists>a x. v = VRef a \<and> getObj s a = Some x \<and> \<not> isVNode x"
  using assms
  by (auto simp: observe_unfold[of n] observe_with_def split: val.splits option.splits if_splits)

lemma observe_existing:
  assumes "getObj s a = Some x" and "\<not> isVNode x" and "ob x = Some b"
  shows "observe n e (VRef a) r s = Ok (Some b, if r then incVmCount b s else s)"
  using assms by (simp add: observe_unfold[of n] observe_with_def)

section \<open>Subscriptions made by a read\<close>

lemma subs_mono_refl [simp]: "subs_mono s s"
  by (simp add: subs_mono_def)










lemma same_heap_reads:
  assumes "same_heap s s'"
  shows "obOf s' v = obOf s v" and "obDep s' b = obDep s b" and "isArray s' v = isArray s v"
    and "elemsOf s' v = elemsOf s v" and "target s' = target s"
    and "length (deps s') = length (deps s)"
  using assms
  by (simp_all add: same_heap_def obOf_def obDep_def isArray_def elemsOf_def getObj_def
      split: val.splits)

lemma nestedElems_same_heap: "same_heap s s' \<Longrightarrow> nestedElems n s' vs = nestedElems n s vs"
  by (induction n s vs rule: nestedElems.induct)
     (auto simp: same_heap_reads split: nat.splits)








section \<open>observeArray gives every element it can an Observer\<close>

lemma observable_stable: "ob_stable s s' \<Longrightarrow> observable e s v \<Longrightarrow> observable e s' v"
  by (auto simp: observable_def ob_stable_def getObj_def lookup_def split: val.splits if_splits)

lemma observe_observable:
  assumes "observe n e v r s = Ok (res, s')" and "observable e s v"
  shows "res \<noteq> None"
  using assms
  by (auto simp: observe_unfold[of n] observe_with_def observable_def rbind_Ok_iff
      split: val.splits option.splits if_splits)

lemma observeArray_observes:
  "observeArray n e vs s = Ok s' \<Longrightarrow> v \<in> set vs \<Longrightarrow> observable e s v \<Longrightarrow> obOf s' v \<noteq> None"
proof (induction vs arbitrary: s)
  case Nil
  then show ?case by simp
next
  case (Cons u us)
  from Cons.prems(1) obtain r s1 where a: "observe n e u False s = Ok (r, s1)"
    and b: "observeArray n e us s1 = Ok s'"
    by (auto simp: observeArray_def rbind_Ok_iff)
  from observe_ob[OF a] have st: "ob_stable s s1" by simp
  have st2: "ob_stable s1 s'"
    using b ob_stable_observeArray_with[OF obs_ok_observe] by (simp add: observeArray_def)
  show ?case
  proof (cases "v = u")
    case True
    with observe_observable[OF a] Cons.prems(3) obtain b' where "r = Some b'" by auto
    with observe_ob[OF a] have "obOf s1 u = Some b'" by simp
    with ob_stable_obOf[OF st2] True show ?thesis by simp
  next
    case False
    with Cons.prems(2) have "v \<in> set us" by simp
    from Cons.IH[OF b this observable_stable[OF st Cons.prems(3)]] show ?thesis .
  qed
qed

lemma ob_stable_observeArray: "observeArray n e vs s = Ok s' \<Longrightarrow> ob_stable s s'"
  using ob_stable_observeArray_with[OF obs_ok_observe] by (simp add: observeArray_def)

section \<open>What defineReactive installs\<close>

lemma defineProperty_installs:
  assumes "defineProperty a k p s = Ok s'"
  shows "\<exists>x'. getObj s' a = Some x' \<and> ownProp x' k = Some p"
  using assms
  by (auto simp: defineProperty_def putObj_def getObj_def lookup_def ownProp_def map_of_setProp
      split: option.splits if_splits)

lemma defineReactive_installs:
  assumes "defineReactive n e a k (Some v) cs sh s = Ok s1"
    and "getObj s a = Some x" and "ownProp x k = None"
  shows "\<exists>x1 c cl. getObj s1 a = Some x1
          \<and> ownProp x1 k = Some (AccessorProp (Some (ReactiveGetter c)) (Some (ReactiveSetter c)) True True)
          \<and> lookup (closures s1) c = Some cl \<and> cval cl = v \<and> cdep cl = length (deps s)
          \<and> cgetter cl = None \<and> csetter cl = None"
proof -
  let ?s0 = "snd (newDep s)"
  have g: "getObj ?s0 a = Some x" using assms(2) by (simp add: newDep_def getObj_def)
  from assms(1) g assms(3) obtain childOb s3 where
    a: "(if sh then Ok (None, ?s0) else observe n e v False ?s0) = Ok (childOb, s3)"
    and b: "defineProperty a k
              (AccessorProp (Some (ReactiveGetter (length (closures s3))))
                 (Some (ReactiveSetter (length (closures s3)))) True True)
              (s3\<lparr>closures := closures s3 @
                   [newClosure a (fst (newDep s)) v childOb None None sh cs]\<rparr>) = Ok s1"
    by (auto simp: defineReactive_def defineReactive_with_def Let_def rbind_Ok_iff getterOf_def
        setterOf_def)
  have cl: "closures s1 = closures s3 @ [newClosure a (fst (newDep s)) v childOb None None sh cs]"
    using b by (auto simp: defineProperty_def putObj_def split: option.splits if_splits)
  from defineProperty_installs[OF b] cl show ?thesis
    by (auto simp: lookup_def newClosure_def newDep_def nth_append)
qed

section \<open>A larger bound gives the same result\<close>

lemma dependArray_mono: "dependArray n vs s = Ok s' \<Longrightarrow> dependArray (n + k) vs s = Ok s'"
proof (induction n vs s arbitrary: s' rule: dependArray.induct)
  case (1 n s)
  then show ?case by simp
next
  case (2 n v vs s)
  from "2.prems" obtain s2 where
    a: "(if isArray s v then (case n of 0 \<Rightarrow> OutOfFuel | Suc m \<Rightarrow> dependArray m (elemsOf s v) (dependElem v s)) else Ok (dependElem v s)) = Ok s2"
    and b: "dependArray n vs s2 = Ok s'"
    by (auto simp: rbind_Ok_iff)
  have a': "(if isArray s v then (case n + k of 0 \<Rightarrow> OutOfFuel | Suc m \<Rightarrow> dependArray m (elemsOf s v) (dependElem v s)) else Ok (dependElem v s)) = Ok s2"
  proof (cases "isArray s v")
    case True
    with a obtain m where n: "n = Suc m" and c: "dependArray m (elemsOf s v) (dependElem v s) = Ok s2"
      by (cases n) auto
    from "2.IH"(1)[OF True n c] n True show ?thesis by simp
  next
    case False
    with a show ?thesis by simp
  qed
  from "2.IH"(2)[OF b] a' show ?case by simp
qed

lemma subscribeRead_mono:
  "subscribeRead n cl vl s = Ok r \<Longrightarrow> subscribeRead (n + k) cl vl s = Ok r"
  by (auto simp: subscribeRead_def rbind_Ok_iff split: option.splits if_splits
      dest: dependArray_mono)

lemma call_get_mono: "call_get n g s = Ok r \<Longrightarrow> call_get (n + k) g s = Ok r"
proof (induction n g s arbitrary: r rule: call_get.induct)
  case (1 n c s)
  then show ?case by simp
next
  case (2 n c s)
  show ?case
  proof (cases "lookup (closures s) c")
    case None
    with "2.prems" show ?thesis by simp
  next
    case (Some cl)
    with "2.prems" obtain vl s1 where
      a: "(case cgetter cl of Some g \<Rightarrow> (case n of 0 \<Rightarrow> OutOfFuel | Suc m \<Rightarrow> call_get m g s) | None \<Rightarrow> Ok (cval cl, s)) = Ok (vl, s1)"
      and b: "subscribeRead n cl vl s1 = Ok r"
      by (auto simp: rbind_Ok_iff)
    have a': "(case cgetter cl of Some g \<Rightarrow> (case n + k of 0 \<Rightarrow> OutOfFuel | Suc m \<Rightarrow> call_get m g s) | None \<Rightarrow> Ok (cval cl, s)) = Ok (vl, s1)"
    proof (cases "cgetter cl")
      case None
      with a show ?thesis by simp
    next
      case (Some g)
      with a obtain m where n: "n = Suc m" and c: "call_get m g s = Ok (vl, s1)"
        by (cases n) auto
      from "2.IH"[OF \<open>lookup (closures s) c = Some cl\<close> Some n c] n Some show ?thesis by simp
    qed
    from a' subscribeRead_mono[OF b] Some show ?thesis by simp
  qed
qed

lemma getProp_mono: "getProp n a k s = Ok r \<Longrightarrow> getProp (n + j) a k s = Ok r"
  by (auto simp: getProp_def split: option.splits pdesc.splits dest: call_get_mono)

lemma extends_obs_refl [simp]: "extends_obs f f"
  by (simp add: extends_obs_def)

lemma extends_obs_trans: "extends_obs f g \<Longrightarrow> extends_obs g h \<Longrightarrow> extends_obs f h"
  by (simp add: extends_obs_def)

lemma defineReactive_with_mono:
  assumes "extends_obs obs obs'"
    and "defineReactive_with obs n a k valopt cs sh s = Ok s'"
  shows "defineReactive_with obs' (n + j) a k valopt cs sh s = Ok s'"
proof -
  let ?s1 = "snd (newDep s)"
  show ?thesis
  proof (cases "getObj ?s1 a")
    case None
    with assms(2) show ?thesis by (simp add: defineReactive_with_def Let_def)
  next
    case (Some x)
    show ?thesis
    proof (cases "case ownProp x k of Some p \<Rightarrow> \<not> pconf p | None \<Rightarrow> False")
      case True
      with assms(2) Some show ?thesis by (simp add: defineReactive_with_def Let_def)
    next
      case False
      with assms(2) Some obtain v s2 childOb s3 where
        a: "(if (getterOf (ownProp x k) = None \<or> setterOf (ownProp x k) \<noteq> None) \<and> valopt = None
             then getProp n a k ?s1
             else Ok (case valopt of Some v \<Rightarrow> v | None \<Rightarrow> VUndef, ?s1)) = Ok (v, s2)"
        and b: "(if sh then Ok (None, s2) else obs v False s2) = Ok (childOb, s3)"
        and c: "defineProperty a k
                  (AccessorProp (Some (ReactiveGetter (length (closures s3))))
                     (Some (ReactiveSetter (length (closures s3)))) True True)
                  (s3\<lparr>closures := closures s3 @
                       [newClosure a (fst (newDep s)) v childOb (getterOf (ownProp x k))
                          (setterOf (ownProp x k)) sh cs]\<rparr>) = Ok s'"
        by (auto simp: defineReactive_with_def Let_def rbind_Ok_iff)
      have a': "(if (getterOf (ownProp x k) = None \<or> setterOf (ownProp x k) \<noteq> None) \<and> valopt = None
             then getProp (n + j) a k ?s1
             else Ok (case valopt of Some v \<Rightarrow> v | None \<Rightarrow> VUndef, ?s1)) = Ok (v, s2)"
        using a by (auto split: if_splits dest: getProp_mono)
      have b': "(if sh then Ok (None, s2) else obs' v False s2) = Ok (childOb, s3)"
        using b assms(1) by (auto simp: extends_obs_def split: if_splits)
      from Some False a' b' c show ?thesis
        by (simp add: defineReactive_with_def Let_def)
    qed
  qed
qed

lemma walk_with_mono:
  "extends_obs obs obs' \<Longrightarrow> walk_with obs n a ks s = Ok s'
   \<Longrightarrow> walk_with obs' (n + j) a ks s = Ok s'"
proof (induction ks arbitrary: s)
  case Nil
  then show ?case by simp
next
  case (Cons k ks)
  from Cons.prems(2) obtain s1 where
    a: "defineReactive_with obs n a k None False False s = Ok s1"
    and b: "walk_with obs n a ks s1 = Ok s'"
    by (auto simp: rbind_Ok_iff)
  from defineReactive_with_mono[OF Cons.prems(1) a, of j] Cons.IH[OF Cons.prems(1) b]
  show ?case by simp
qed

lemma observeArray_with_mono:
  "extends_obs obs obs' \<Longrightarrow> observeArray_with obs vs s = Ok s'
   \<Longrightarrow> observeArray_with obs' vs s = Ok s'"
proof (induction vs arbitrary: s)
  case Nil
  then show ?case by simp
next
  case (Cons v vs)
  from Cons.prems(2) obtain r s1 where a: "obs v False s = Ok (r, s1)"
    and b: "observeArray_with obs vs s1 = Ok s'"
    by (auto simp: rbind_Ok_iff)
  from a Cons.prems(1) have "obs' v False s = Ok (r, s1)" by (simp add: extends_obs_def)
  with Cons.IH[OF Cons.prems(1) b] show ?case by simp
qed

lemma newObserver_with_mono:
  assumes "extends_obs obs obs'" and "newObserver_with obs n a s = Ok r"
  shows "newObserver_with obs' (n + j) a s = Ok r"
  using assms(2)
  by (auto simp: newObserver_with_def Let_def rbind_Ok_iff split: if_splits
      dest: observeArray_with_mono[OF assms(1)] walk_with_mono[OF assms(1), where j = j])

lemma observe_with_mono:
  assumes "extends_obs obs obs'"
  shows "extends_obs (observe_with e obs n) (observe_with e obs' (n + j))"
  unfolding extends_obs_def
proof (intro allI impI)
  fix v r s res
  assume h: "observe_with e obs n v r s = Ok res"
  show "observe_with e obs' (n + j) v r s = Ok res"
  proof (cases v)
    case (VRef a)
    show ?thesis
    proof (cases "getObj s a")
      case None
      with h VRef show ?thesis by (simp add: observe_with_def)
    next
      case (Some x)
      show ?thesis
      proof (cases "\<not> isVNode x \<and> ob x = None \<and> shouldObserve s \<and> \<not> serverRendering e
                    \<and> (kind x = Array \<or> kind x = Plain) \<and> extensible x \<and> \<not> isVue x")
        case True
        with h VRef Some obtain b s1 where a: "newObserver_with obs n a s = Ok (b, s1)"
          by (auto simp: observe_with_def rbind_Ok_iff)
        from newObserver_with_mono[OF assms a, of j] h VRef Some True a show ?thesis
          by (simp add: observe_with_def)
      next
        case False
        with h VRef Some show ?thesis by (auto simp: observe_with_def split: if_splits)
      qed
    qed
  qed (use h in \<open>simp_all add: observe_with_def\<close>)
qed

lemma observe_Suc_extends: "extends_obs (observe n e) (observe (Suc n) e)"
proof (induction n)
  case 0
  have "extends_obs (\<lambda>v r s. OutOfFuel) (observe 0 e)" by (simp add: extends_obs_def)
  from observe_with_mono[OF this, of e 0 0] show ?case by simp
next
  case (Suc n)
  from observe_with_mono[OF Suc, of e n 1] show ?case by simp
qed

lemma observe_extends: "extends_obs (observe n e) (observe (n + k) e)"
proof (induction k)
  case 0
  then show ?case by simp
next
  case (Suc k)
  from extends_obs_trans[OF Suc observe_Suc_extends] show ?case by simp
qed

lemma observe_mono: "observe n e v r s = Ok res \<Longrightarrow> observe (n + k) e v r s = Ok res"
  using observe_extends[of n e k] by (cases res) (auto simp: extends_obs_def)

lemma defineReactive_mono:
  "defineReactive n e a k valopt cs sh s = Ok s'
   \<Longrightarrow> defineReactive (n + j) e a k valopt cs sh s = Ok s'"
  using defineReactive_with_mono[OF observe_extends] by (simp add: defineReactive_def)

lemma observeArray_mono: "observeArray n e vs s = Ok s' \<Longrightarrow> observeArray (n + j) e vs s = Ok s'"
  using observeArray_with_mono[OF observe_extends] by (simp add: observeArray_def)

lemma le_res_refl [simp]: "le_res r r"
  by (simp add: le_res_def)

lemma rbind_le:
  "le_res m m' \<Longrightarrow> (\<And>x. le_res (f x) (f' x)) \<Longrightarrow> le_res (rbind m f) (rbind m' f')"
  by (cases m) (auto simp: le_res_def)

lemma le_res_call_get: "le_res (call_get n g s) (call_get (n + j) g s)"
  by (simp add: le_res_def call_get_mono)

lemma le_res_observe: "le_res (observe n e v r s) (observe (n + j) e v r s)"
  by (simp add: le_res_def observe_mono)

lemma call_set_with_mono:
  assumes "extends_set rec rec'"
  shows "extends_set (call_set_with e rec n) (call_set_with e rec' (n + j))"
proof -
  have r: "\<And>st v s. le_res (rec st v s) (rec' st v s)"
    using assms by (simp add: extends_set_def le_res_def)
  have "le_res (call_set_with e rec n st v s) (call_set_with e rec' (n + j) st v s)" for st v s
    unfolding call_set_with_def Let_def
    by (auto intro!: rbind_le le_res_call_get le_res_observe r
        split: setter.splits option.splits)
  then show ?thesis by (simp add: extends_set_def le_res_def)
qed

lemma call_set_Suc_extends: "extends_set (call_set n e) (call_set (Suc n) e)"
proof (induction n)
  case 0
  have "extends_set (\<lambda>st v s. OutOfFuel) (call_set 0 e)" by (simp add: extends_set_def)
  from call_set_with_mono[OF this, of e 0 1] show ?case by simp
next
  case (Suc n)
  from call_set_with_mono[OF Suc, of e "Suc n" 1] show ?case by simp
qed

lemma call_set_mono: "call_set n e st v s = Ok res \<Longrightarrow> call_set (n + k) e st v s = Ok res"
proof (induction k)
  case 0
  then show ?case by simp
next
  case (Suc k)
  with call_set_Suc_extends[of "n + k" e] show ?case
    by (cases res) (auto simp: extends_set_def)
qed

lemma le_res_call_set: "le_res (call_set n e st v s) (call_set (n + j) e st v s)"
  by (simp add: le_res_def call_set_mono)

lemma le_res_observeArray: "le_res (observeArray n e vs s) (observeArray (n + j) e vs s)"
  by (simp add: le_res_def observeArray_mono)

lemma le_res_defineReactive:
  "le_res (defineReactive n e a k valopt cs sh s) (defineReactive (n + j) e a k valopt cs sh s)"
  by (simp add: le_res_def defineReactive_mono)

lemma le_res_assign: "le_res (assign n e a k v s) (assign (n + j) e a k v s)"
  unfolding assign_def
  by (auto intro!: rbind_le le_res_call_set split: option.splits pdesc.splits)

lemma le_res_mutator: "le_res (mutator n e m a args s) (mutator (n + j) e m a args s)"
  unfolding mutator_def
  by (auto intro!: rbind_le le_res_observeArray split: option.splits)

lemma le_res_callSplice: "le_res (callSplice n e a args s) (callSplice (n + j) e a args s)"
  unfolding callSplice_def
  by (auto intro!: rbind_le le_res_mutator split: option.splits)

lemma le_res_set_js: "le_res (set_js n e tgt k v s) (set_js (n + j) e tgt k v s)"
  unfolding set_js_def Let_def
  by (auto intro!: rbind_le le_res_callSplice le_res_assign le_res_defineReactive
      split: val.splits option.splits)

lemma le_res_del: "le_res (del n e tgt k s) (del (n + j) e tgt k s)"
  unfolding del_def Let_def
  by (auto intro!: rbind_le le_res_callSplice split: val.splits option.splits)

lemma set_js_mono: "set_js n e tgt k v s = Ok res \<Longrightarrow> set_js (n + j) e tgt k v s = Ok res"
  using le_res_set_js[of n e tgt k v s j] by (simp add: le_res_def)

lemma del_mono: "del n e tgt k s = Ok res \<Longrightarrow> del (n + j) e tgt k s = Ok res"
  using le_res_del[of n e tgt k s j] by (simp add: le_res_def)

lemma mutator_mono: "mutator n e m a args s = Ok res \<Longrightarrow> mutator (n + j) e m a args s = Ok res"
  using le_res_mutator[of n e m a args s j] by (simp add: le_res_def)

lemma nestedElems_complete:
  "dependArray n vs s = Ok s' \<Longrightarrow> nestedElems (n + k) s vs = nestedElems n s vs"
proof (induction n vs s arbitrary: s' rule: dependArray.induct)
  case (1 n s)
  then show ?case by simp
next
  case (2 n v vs s)
  from "2.prems" obtain s2 where
    a: "(if isArray s v then (case n of 0 \<Rightarrow> OutOfFuel | Suc m \<Rightarrow> dependArray m (elemsOf s v) (dependElem v s)) else Ok (dependElem v s)) = Ok s2"
    and b: "dependArray n vs s2 = Ok s'"
    by (auto simp: rbind_Ok_iff)
  have sh: "same_heap s s2"
    using a same_heap_dependElem[of s v]
    by (auto split: if_splits nat.splits dest!: same_heap_dependArray intro: same_heap_trans)
  have tl: "nestedElems (n + k) s vs = nestedElems n s vs"
    using "2.IH"(2)[OF b] sh by (simp add: nestedElems_same_heap)
  show ?case
  proof (cases "isArray s v")
    case True
    with a obtain m where n: "n = Suc m" and c: "dependArray m (elemsOf s v) (dependElem v s) = Ok s2"
      by (cases n) auto
    from "2.IH"(1)[OF True n c] same_heap_dependElem[of s v]
    have "nestedElems (m + k) s (elemsOf s v) = nestedElems m s (elemsOf s v)"
      by (simp add: nestedElems_same_heap)
    with tl n True show ?thesis by simp
  next
    case False
    with tl show ?thesis by simp
  qed
qed

section \<open>observe returns on a store of plain data\<close>

lemma props_frame_refl [simp]: "props_frame A s s"
  by (auto simp: props_frame_def)

lemma props_frame_objs: "objs s' = objs s \<Longrightarrow> props_frame A s s'"
  by (auto simp: props_frame_def getObj_def)

lemma props_frame_mono: "props_frame A s s' \<Longrightarrow> A \<subseteq> B \<Longrightarrow> props_frame B s s'"
  by (auto simp: props_frame_def)

lemma ob_stable_getObj:
  assumes "ob_stable s s'" and "getObj s a = Some x"
  shows "\<exists>x'. getObj s' a = Some x' \<and> (ob x \<noteq> None \<longrightarrow> ob x' = ob x)
           \<and> extensible x' = extensible x \<and> kind x' = kind x \<and> isVNode x' = isVNode x
           \<and> (isVue x' \<longrightarrow> isVue x)"
  using assms by (auto simp: ob_stable_def getObj_def lookup_def split: if_splits)

lemma ob_stable_getObj_rev:
  assumes "ob_stable s s'" and "getObj s' a = Some x'"
  shows "\<exists>x. getObj s a = Some x"
  using assms by (auto simp: ob_stable_def getObj_def lookup_def split: if_splits)

lemma props_frame_trans:
  assumes "props_frame A s s1" and "props_frame A s1 s2" and "ob_stable s s1" and "ob_stable s1 s2"
  shows "props_frame A s s2"
  unfolding props_frame_def
proof (intro allI impI)
  fix a x x2
  assume a: "a \<notin> A" and x: "getObj s a = Some x" and x2: "getObj s2 a = Some x2"
    and c: "ob x \<noteq> None \<or> ob x2 = None"
  from ob_stable_getObj[OF assms(3) x] obtain x1 where x1: "getObj s1 a = Some x1"
    and m1: "ob x \<noteq> None \<longrightarrow> ob x1 = ob x" by blast
  from ob_stable_getObj[OF assms(4) x1] obtain x2' where "getObj s2 a = Some x2'"
    and "ob x1 \<noteq> None \<longrightarrow> ob x2' = ob x1" by blast
  with x2 have m2: "ob x1 \<noteq> None \<longrightarrow> ob x2 = ob x1" by simp
  have c1: "ob x \<noteq> None \<or> ob x1 = None"
  proof (cases "ob x = None")
    case True
    with c have "ob x2 = None" by simp
    with m2 show ?thesis by (cases "ob x1 = None") simp_all
  qed simp
  have c2: "ob x1 \<noteq> None \<or> ob x2 = None"
  proof (cases "ob x = None")
    case True
    with c show ?thesis by simp
  next
    case False
    with m1 show ?thesis by simp
  qed
  from assms(1) a x x1 c1 have "props x1 = props x" unfolding props_frame_def by blast
  moreover from assms(2) a x1 x2 c2 have "props x2 = props x1" unfolding props_frame_def by blast
  ultimately show "props x2 = props x" by simp
qed

lemma data_store_frame:
  assumes "data_store s" and "props_frame A s s'" and "ob_stable s s'"
    and "\<And>a x. a \<in> A \<Longrightarrow> getObj s a = Some x \<Longrightarrow> ob x \<noteq> None"
  shows "data_store s'"
  unfolding data_store_def
proof (intro ballI impI)
  fix x' assume "x' \<in> set (objs s')" and n: "ob x' = None"
  then obtain a where "a < length (objs s')" and "objs s' ! a = x'"
    by (auto simp: in_set_conv_nth)
  then have x': "getObj s' a = Some x'" by (simp add: getObj_def lookup_def)
  from ob_stable_getObj_rev[OF assms(3) x'] obtain x where x: "getObj s a = Some x" by blast
  from ob_stable_getObj[OF assms(3) x] x' n have nx: "ob x = None" by auto
  have "a \<notin> A"
  proof
    assume "a \<in> A"
    from assms(4)[OF this x] nx show False by simp
  qed
  with assms(2) x x' n have "props x' = props x" unfolding props_frame_def by blast
  moreover from x have "x \<in> set (objs s)" by (auto simp: getObj_def lookup_def split: if_splits)
  ultimately show "distinct (map fst (props x')) \<and> (\<forall>kp \<in> set (props x'). is_DataProp (snd kp))"
    using assms(1) nx by (auto simp: data_store_def)
qed

lemma filter_count_le:
  "length xs = length ys \<Longrightarrow> (\<And>i. i < length xs \<Longrightarrow> P (xs ! i) \<Longrightarrow> Q (ys ! i))
   \<Longrightarrow> length (filter P xs) \<le> length (filter Q ys)"
proof (induction xs ys rule: list_induct2)
  case Nil
  then show ?case by simp
next
  case (Cons x xs y ys)
  have "\<And>i. i < length xs \<Longrightarrow> P (xs ! i) \<Longrightarrow> Q (ys ! i)"
  proof -
    fix i assume "i < length xs" and "P (xs ! i)"
    with Cons.prems[of "Suc i"] show "Q (ys ! i)" by simp
  qed
  then have "length (filter P xs) \<le> length (filter Q ys)" by (rule Cons.IH)
  moreover have "P x \<Longrightarrow> Q y" using Cons.prems[of 0] by simp
  ultimately show ?case by auto
qed

lemma unobserved_mono: "ob_stable s s' \<Longrightarrow> unobserved s' \<le> unobserved s"
proof -
  assume st: "ob_stable s s'"
  have "length (filter (\<lambda>x. ob x = None) (objs s')) \<le> length (filter (\<lambda>x. ob x = None) (objs s))"
  proof (rule filter_count_le)
    show "length (objs s') = length (objs s)" using st by (simp add: ob_stable_def)
  next
    fix i assume i: "i < length (objs s')" and n: "ob (objs s' ! i) = None"
    from st i have "\<forall>b. ob (objs s ! i) = Some b \<longrightarrow> ob (objs s' ! i) = Some b"
      by (simp add: ob_stable_def)
    with n show "ob (objs s ! i) = None" by (cases "ob (objs s ! i)") auto
  qed
  then show ?thesis by (simp add: unobserved_def)
qed

lemma filter_count_update:
  "i < length xs \<Longrightarrow> P (xs ! i) \<Longrightarrow> \<not> P y
   \<Longrightarrow> Suc (length (filter P (xs[i := y]))) = length (filter P xs)"
proof (induction xs arbitrary: i)
  case Nil
  then show ?case by simp
next
  case (Cons x xs)
  then show ?case by (cases i) auto
qed

lemma unobserved_def_ob:
  assumes "getObj s a = Some x" and "ob x = None"
  shows "Suc (unobserved (def_ob a b s)) = unobserved s"
proof -
  from assms(1) have a: "a < length (objs s)" and x: "objs s ! a = x"
    by (auto simp: getObj_def lookup_def split: if_splits)
  have "Suc (length (filter (\<lambda>x. ob x = None)
               ((objs s)[a := x\<lparr>props := setProp (Name ''__ob__'') (ObProp b True False True) (props x)\<rparr>])))
          = length (filter (\<lambda>x. ob x = None) (objs s))"
    by (rule filter_count_update) (use a x assms(2) in \<open>simp_all add: ob_def_ob\<close>)
  then show ?thesis by (simp add: unobserved_def def_ob_putObj[OF assms(1)] putObj_def)
qed

lemma defineProperty_result:
  assumes "getObj s a = Some x" and "ownProp x k = Some q" and "pconf q"
  shows "defineProperty a k p s = Ok (putObj a (x\<lparr>props := setProp k p (props x)\<rparr>) s)"
  using assms by (simp add: defineProperty_def)

lemma props_frame_putObj: "props_frame {a} s (putObj a y s)"
  unfolding props_frame_def by (simp add: getObj_putObj_other)

lemma defineReactive_with_total:
  assumes tot: "obs_total K obs" and ok: "obs_ok obs"
    and ds: "data_store s" and un: "unobserved s \<le> K"
    and x: "getObj s a = Some x" and obx: "ob x \<noteq> None"
    and q: "map_of (props x) k = Some q" and dq: "is_DataProp q"
    and nk: "k \<noteq> Name ''__ob__''"
  shows "\<exists>s' x'. defineReactive_with obs n a k None False False s = Ok s'
           \<and> props_frame {a} s s' \<and> getObj s' a = Some x'
           \<and> (\<forall>k'. k' \<noteq> k \<longrightarrow> map_of (props x') k' = map_of (props x) k')"
proof -
  let ?s1 = "snd (newDep s)"
  have o1: "objs ?s1 = objs s" by (simp add: newDep_def)
  have x1: "getObj ?s1 a = Some x" using x by (simp add: getObj_def o1)
  have own: "ownProp x k = Some q" using q by (simp add: ownProp_def)
  from dq obtain v w en cf where qd: "q = DataProp v w en cf" by (cases q) auto
  show ?thesis
  proof (cases "pconf q")
    case False
    with x1 own have "defineReactive_with obs n a k None False False s = Ok ?s1"
      by (simp add: defineReactive_with_def Let_def)
    moreover have "props_frame {a} s ?s1" using o1 by (rule props_frame_objs)
    ultimately show ?thesis using x1 by auto
  next
    case True
    have g: "getProp n a k ?s1 = Ok (v, ?s1)"
      using x1 own qd by (simp add: getProp_def)
    have ds1: "data_store ?s1" using ds o1 by (simp add: data_store_def)
    have un1: "unobserved ?s1 \<le> K" using un o1 by (simp add: unobserved_def)
    from tot ds1 un1 obtain childOb s3 where
      ob3: "obs v False ?s1 = Ok (childOb, s3)" and pf3: "props_frame {} ?s1 s3"
      unfolding obs_total_def by blast
    from ok ob3 have st3: "ob_stable ?s1 s3" unfolding obs_ok_def by blast
    from ob_stable_getObj[OF st3 x1] obx obtain x3 where x3: "getObj s3 a = Some x3"
      and obx3: "ob x3 = ob x" by auto
    from pf3 x1 x3 obx have p3: "props x3 = props x" unfolding props_frame_def by blast
    let ?s4 = "s3\<lparr>closures := closures s3 @ [newClosure a (fst (newDep s)) v childOb None None False False]\<rparr>"
    let ?p = "AccessorProp (Some (ReactiveGetter (length (closures s3))))
                (Some (ReactiveSetter (length (closures s3)))) True True"
    have x4: "getObj ?s4 a = Some x3" using x3 by (simp add: getObj_def)
    have own3: "ownProp x3 k = Some q" using q p3 by (simp add: ownProp_def)
    let ?s' = "putObj a (x3\<lparr>props := setProp k ?p (props x3)\<rparr>) ?s4"
    have dp: "defineProperty a k ?p ?s4 = Ok ?s'"
      using x4 own3 True by (rule defineProperty_result)
    have res: "defineReactive_with obs n a k None False False s = Ok ?s'"
      using x1 own True g ob3 dp qd
      by (simp add: defineReactive_with_def Let_def getterOf_def setterOf_def)
    have f1: "props_frame {a} s ?s1" using o1 by (rule props_frame_objs)
    have f3: "props_frame {a} ?s1 s3" using pf3 by (rule props_frame_mono) simp
    have f4: "props_frame {a} s3 ?s4" by (rule props_frame_objs) simp
    have f5: "props_frame {a} ?s4 ?s'" by (rule props_frame_putObj)
    have st1: "ob_stable s ?s1" by (rule ob_stable_objs) (simp_all add: newDep_def)
    have st4: "ob_stable s3 ?s4" by (rule ob_stable_objs) simp_all
    have st5: "ob_stable ?s4 ?s'" by (rule ob_stable_defineProperty[OF dp nk]) simp
    have fr: "props_frame {a} s ?s'"
      using props_frame_trans[OF props_frame_trans[OF props_frame_trans[OF f1 f3 st1 st3] f4
            ob_stable_trans[OF st1 st3] st4] f5 ob_stable_trans[OF ob_stable_trans[OF st1 st3] st4] st5] .
    have gx: "getObj ?s' a = Some (x3\<lparr>props := setProp k ?p (props x3)\<rparr>)"
      using x4 by (rule getObj_putObj_same)
    have oth: "\<forall>k'. k' \<noteq> k \<longrightarrow>
        map_of (props (x3\<lparr>props := setProp k ?p (props x3)\<rparr>)) k' = map_of (props x) k'"
      using p3 by (simp add: map_of_setProp_other)
    from res fr gx oth show ?thesis by blast
  qed
qed
lemma walk_with_total:
  assumes tot: "obs_total K obs" and ok: "obs_ok obs"
  shows "data_store s \<Longrightarrow> unobserved s \<le> K \<Longrightarrow> getObj s a = Some x \<Longrightarrow> ob x \<noteq> None
    \<Longrightarrow> distinct ks \<Longrightarrow> (\<And>k. k \<in> set ks \<Longrightarrow> \<exists>q. map_of (props x) k = Some q \<and> is_DataProp q)
    \<Longrightarrow> Name ''__ob__'' \<notin> set ks
    \<Longrightarrow> \<exists>s'. walk_with obs n a ks s = Ok s' \<and> props_frame {a} s s' \<and> ob_stable s s'"
proof (induction ks arbitrary: s x)
  case Nil
  then show ?case by simp
next
  case (Cons k ks)
  from Cons.prems(6)[of k] obtain q where q: "map_of (props x) k = Some q" and dq: "is_DataProp q"
    by auto
  from Cons.prems(7) have nk0: "k \<noteq> Name ''__ob__''" and nks: "Name ''__ob__'' \<notin> set ks"
    by auto
  from defineReactive_with_total[OF tot ok Cons.prems(1,2,3,4) q dq nk0, of n]
  obtain s1 x1 where d: "defineReactive_with obs n a k None False False s = Ok s1"
    and f1: "props_frame {a} s s1" and x1: "getObj s1 a = Some x1"
    and oth: "\<forall>k'. k' \<noteq> k \<longrightarrow> map_of (props x1) k' = map_of (props x) k'"
    by blast
  have st1: "ob_stable s s1" using ok d nk0 by (rule ob_stable_defineReactive_with)
  have ds1: "data_store s1"
  proof (rule data_store_frame[OF Cons.prems(1) f1 st1])
    fix a' y assume "a' \<in> {a}" and "getObj s a' = Some y"
    with Cons.prems(3,4) show "ob y \<noteq> None" by simp
  qed
  have un1: "unobserved s1 \<le> K" using unobserved_mono[OF st1] Cons.prems(2) by simp
  from ob_stable_getObj[OF st1 Cons.prems(3)] x1 Cons.prems(4) have obx1: "ob x1 \<noteq> None" by auto
  have dist: "distinct ks" and nk: "k \<notin> set ks" using Cons.prems(5) by simp_all
  have rest: "\<And>k'. k' \<in> set ks \<Longrightarrow> \<exists>q. map_of (props x1) k' = Some q \<and> is_DataProp q"
  proof -
    fix k' assume k': "k' \<in> set ks"
    with nk have "k' \<noteq> k" by auto
    with oth have "map_of (props x1) k' = map_of (props x) k'" by simp
    with Cons.prems(6)[of k'] k' show "\<exists>q. map_of (props x1) k' = Some q \<and> is_DataProp q" by simp
  qed
  from Cons.IH[OF ds1 un1 x1 obx1 dist rest nks] obtain s' where
    w: "walk_with obs n a ks s1 = Ok s'" and f2: "props_frame {a} s1 s'" and st2: "ob_stable s1 s'"
    by blast
  have "walk_with obs n a (k # ks) s = Ok s'" using d w by simp
  moreover have "props_frame {a} s s'" using props_frame_trans[OF f1 f2 st1 st2] .
  moreover have "ob_stable s s'" using ob_stable_trans[OF st1 st2] .
  ultimately show ?case by blast
qed

lemma observeArray_with_total:
  assumes tot: "obs_total K obs" and ok: "obs_ok obs"
  shows "data_store s \<Longrightarrow> unobserved s \<le> K
    \<Longrightarrow> \<exists>s'. observeArray_with obs vs s = Ok s' \<and> props_frame {} s s' \<and> ob_stable s s'"
proof (induction vs arbitrary: s)
  case Nil
  then show ?case by simp
next
  case (Cons v vs)
  from tot Cons.prems obtain r s1 where o: "obs v False s = Ok (r, s1)"
    and f1: "props_frame {} s s1"
    unfolding obs_total_def by blast
  from ok o have st1: "ob_stable s s1" unfolding obs_ok_def by blast
  have ds1: "data_store s1" by (rule data_store_frame[OF Cons.prems(1) f1 st1]) simp
  have un1: "unobserved s1 \<le> K" using unobserved_mono[OF st1] Cons.prems(2) by simp
  from Cons.IH[OF ds1 un1] obtain s' where
    w: "observeArray_with obs vs s1 = Ok s'" and f2: "props_frame {} s1 s'"
    and st2: "ob_stable s1 s'"
    by blast
  have "observeArray_with obs (v # vs) s = Ok s'" using o w by simp
  moreover have "props_frame {} s s'" using props_frame_trans[OF f1 f2 st1 st2] .
  moreover have "ob_stable s s'" using ob_stable_trans[OF st1 st2] .
  ultimately show ?case by blast
qed
lemma props_frame_same_props:
  "(\<And>a x x'. getObj s a = Some x \<Longrightarrow> getObj s' a = Some x' \<Longrightarrow> props x' = props x)
   \<Longrightarrow> props_frame A s s'"
  unfolding props_frame_def by blast

lemma data_store_keys:
  assumes "data_store s" and "getObj s a = Some x" and "ob x = None"
  shows "distinct (keys x)"
    and "k \<in> set (keys x) \<Longrightarrow> \<exists>q. map_of (props x) k = Some q \<and> is_DataProp q"
proof -
  from assms(2) have mem: "x \<in> set (objs s)"
    by (auto simp: getObj_def lookup_def split: if_splits)
  with assms(1,3) have d: "distinct (map fst (props x))"
    and dp: "\<forall>kp \<in> set (props x). is_DataProp (snd kp)"
    unfolding data_store_def by blast+
  from d show "distinct (keys x)" by (rule distinct_keys)
  assume "k \<in> set (keys x)"
  then obtain p where kp: "(k, p) \<in> set (props x)" by (auto simp: set_keys)
  with d have "map_of (props x) k = Some p" by simp
  moreover from dp kp have "is_DataProp p" by auto
  ultimately show "\<exists>q. map_of (props x) k = Some q \<and> is_DataProp q" by blast
qed

lemma data_store_putObj:
  assumes "data_store s" and "ob y \<noteq> None"
  shows "data_store (putObj a y s)"
  unfolding data_store_def
proof (intro ballI impI)
  fix z assume "z \<in> set (objs (putObj a y s))" and n: "ob z = None"
  then have "z \<in> insert y (set (objs s))"
    using set_update_subset_insert[of "objs s" a y] by (auto simp: putObj_def)
  with n assms(2) have "z \<in> set (objs s)" by auto
  with assms(1) n show "distinct (map fst (props z)) \<and> (\<forall>kp \<in> set (props z). is_DataProp (snd kp))"
    unfolding data_store_def by blast
qed

lemma newObserver_with_total:
  assumes tot: "obs_total K obs" and ok: "obs_ok obs"
    and ds: "data_store s" and un: "unobserved s \<le> Suc K"
    and x: "getObj s a = Some x" and obx: "ob x = None"
  shows "\<exists>b s'. newObserver_with obs n a s = Ok (b, s') \<and> props_frame {} s s'"
proof -
  let ?b = "length (observers (snd (newDep s)))"
  let ?s2 = "(snd (newDep s))\<lparr>observers := observers (snd (newDep s))
      @ [\<lparr>ovalue = a, odep = fst (newDep s), vmCount = 0\<rparr>]\<rparr>"
  let ?x3 = "x\<lparr>props := setProp (Name ''__ob__'') (ObProp ?b True False True) (props x)\<rparr>"
  let ?s3 = "def_ob a ?b ?s2"
  have o2: "objs ?s2 = objs s" by (simp add: newDep_def)
  have x2: "getObj ?s2 a = Some x" using x by (simp add: getObj_def o2)
  have s3: "?s3 = putObj a ?x3 ?s2" using x2 by (rule def_ob_putObj)
  have x3: "getObj ?s3 a = Some ?x3" unfolding s3 using x2 by (rule getObj_putObj_same)
  have ob3: "ob ?x3 \<noteq> None" by (simp add: ob_def_ob)
  have ds2: "data_store ?s2" using ds o2 by (simp add: data_store_def)
  have ds3: "data_store ?s3" unfolding s3 by (rule data_store_putObj[OF ds2 ob3])
  have un3: "unobserved ?s3 \<le> K"
    using unobserved_def_ob[OF x2 obx, of ?b] un o2 by (simp add: unobserved_def)
  have st2: "ob_stable s ?s2"
    by (auto simp: newDep_def ob_stable_def obDep_def lookup_def nth_append split: if_splits)
  have st3: "ob_stable ?s2 ?s3" by (rule ob_stable_def_ob[OF x2 obx])
  have f03: "props_frame {} s ?s3"
    unfolding props_frame_def
  proof (intro allI impI)
    fix a' y y' assume y: "getObj s a' = Some y" and y': "getObj ?s3 a' = Some y'"
      and c: "ob y \<noteq> None \<or> ob y' = None"
    show "props y' = props y"
    proof (cases "a' = a")
      case True
      with y x have "y = x" by simp
      moreover from True y' x3 have "y' = ?x3" by simp
      ultimately show ?thesis using c obx ob3 by simp
    next
      case False
      with y' have "getObj ?s2 a' = Some y'" by (simp add: s3 getObj_putObj_other)
      with y o2 show ?thesis by (simp add: getObj_def)
    qed
  qed
  show ?thesis
  proof (cases "isArray ?s3 (VRef a)")
    case True
    let ?s3a = "augment a ?s3"
    have sta: "ob_stable ?s3 ?s3a" by (rule ob_stable_augment)
    have s3a: "?s3a = putObj a (?x3\<lparr>augmented := True\<rparr>) ?s3" using x3 by (simp add: augment_def)
    have oba: "ob (?x3\<lparr>augmented := True\<rparr>) \<noteq> None" using ob3 by simp
    have dsa: "data_store ?s3a" unfolding s3a by (rule data_store_putObj[OF ds3 oba])
    have una: "unobserved ?s3a \<le> K" using unobserved_mono[OF sta] un3 by simp
    have fa: "props_frame {} ?s3 ?s3a"
    proof (rule props_frame_same_props)
      fix a' y y' assume y: "getObj ?s3 a' = Some y" and y': "getObj ?s3a a' = Some y'"
      show "props y' = props y"
      proof (cases "a' = a")
        case True
        with y x3 have "y = ?x3" by simp
        moreover from True y' getObj_putObj_same[OF x3, of "?x3\<lparr>augmented := True\<rparr>"]
        have "y' = ?x3\<lparr>augmented := True\<rparr>" by (simp add: s3a[symmetric])
        ultimately show ?thesis by simp
      next
        case False
        with y y' show ?thesis by (simp add: s3a getObj_putObj_other)
      qed
    qed
    from observeArray_with_total[OF tot ok dsa una, of "elemsOf ?s3 (VRef a)"] obtain s' where
      w: "observeArray_with obs (elemsOf ?s3 (VRef a)) ?s3a = Ok s'"
      and f: "props_frame {} ?s3a s'" and st: "ob_stable ?s3a s'"
      by blast
    have res: "newObserver_with obs n a s = Ok (?b, s')"
      using True w by (simp add: newObserver_with_def Let_def)
    have "props_frame {} s s'"
      using props_frame_trans[OF props_frame_trans[OF f03 fa ob_stable_trans[OF st2 st3] sta] f
          ob_stable_trans[OF ob_stable_trans[OF st2 st3] sta] st] .
    with res show ?thesis by blast
  next
    case False
    from x have mem: "x \<in> set (objs s)"
      by (auto simp: getObj_def lookup_def split: if_splits)
    with ds obx have d: "distinct (map fst (props x))"
      and dp: "\<forall>kp \<in> set (props x). is_DataProp (snd kp)"
      unfolding data_store_def by blast+
    have d3: "distinct (map fst (props ?x3))"
      using d by (auto simp: map_fst_setProp)
    have dk: "distinct (keys ?x3)" using d3 by (rule distinct_keys)
    have no: "Name ''__ob__'' \<notin> set (keys ?x3)" by (rule keys_def_ob)
    have ak: "\<And>k. k \<in> set (keys ?x3) \<Longrightarrow> \<exists>q. map_of (props ?x3) k = Some q \<and> is_DataProp q"
    proof -
      fix k assume k: "k \<in> set (keys ?x3)"
      with no have nk: "k \<noteq> Name ''__ob__''" by auto
      from k obtain p where "(k, p) \<in> set (props ?x3)" by (auto simp: set_keys)
      with nk have kp: "(k, p) \<in> set (props x)" by (simp add: setProp_entry_other)
      with d have "map_of (props x) k = Some p" by simp
      with nk have "map_of (props ?x3) k = Some p" by (simp add: map_of_setProp_other)
      moreover from dp kp have "is_DataProp p" by auto
      ultimately show "\<exists>q. map_of (props ?x3) k = Some q \<and> is_DataProp q" by blast
    qed
    from walk_with_total[OF tot ok ds3 un3 x3 ob3 dk ak no, of n] obtain s' where
      w: "walk_with obs n a (keys ?x3) ?s3 = Ok s'"
      and f: "props_frame {a} ?s3 s'" and st: "ob_stable ?s3 s'"
      by blast
    have res: "newObserver_with obs n a s = Ok (?b, s')"
      using False w x3 by (simp add: newObserver_with_def Let_def)
    have fa: "props_frame {a} s s'"
      using props_frame_trans[OF props_frame_mono[OF f03] f ob_stable_trans[OF st2 st3] st] by simp
    from ob_stable_getObj[OF st x3] obtain x' where x': "getObj s' a = Some x'"
      and obx': "ob x' = Some ?b" by (auto simp: ob_def_ob)
    have "props_frame {} s s'"
      unfolding props_frame_def
    proof (intro allI impI)
      fix a' y y' assume y: "getObj s a' = Some y" and y': "getObj s' a' = Some y'"
        and c: "ob y \<noteq> None \<or> ob y' = None"
      show "props y' = props y"
      proof (cases "a' = a")
        case True
        with y x have "y = x" by simp
        moreover from True y' x' have "y' = x'" by simp
        ultimately show ?thesis using obx obx' c by simp
      next
        case False
        with fa y y' c show ?thesis unfolding props_frame_def by blast
      qed
    qed
    with res show ?thesis by blast
  qed
qed
lemma props_frame_incVmCount: "props_frame A s (incVmCount b s)"
  unfolding props_frame_def by simp

lemma props_frame_incVmCount_right:
  "props_frame A s s' \<Longrightarrow> props_frame A s (incVmCount b s')"
  unfolding props_frame_def getObj_incVmCount by assumption

lemma observe_with_total_aux:
  assumes creating: "\<And>a x. getObj s a = Some x \<Longrightarrow> ob x = None
      \<Longrightarrow> \<exists>b s'. newObserver_with obs n a s = Ok (b, s') \<and> props_frame {} s s'"
  shows "\<exists>res s'. observe_with e obs n v r s = Ok (res, s') \<and> props_frame {} s s'"
proof (cases v)
  case (VRef a)
  show ?thesis
  proof (cases "getObj s a")
    case None
    with VRef show ?thesis by (simp add: observe_with_def)
  next
    case (Some x)
    show ?thesis
    proof (cases "isVNode x")
      case True
      with VRef Some show ?thesis by (simp add: observe_with_def)
    next
      case False
      note nv = this
      show ?thesis
      proof (cases "ob x")
        case (Some b)
        with VRef \<open>getObj s a = Some x\<close> nv
        have "observe_with e obs n v r s = Ok (Some b, if r then incVmCount b s else s)"
          by (simp add: observe_with_def)
        moreover have "props_frame {} s (if r then incVmCount b s else s)"
          by (simp add: props_frame_incVmCount)
        ultimately show ?thesis by blast
      next
        case None
        show ?thesis
        proof (cases "shouldObserve s \<and> \<not> serverRendering e \<and> (kind x = Array \<or> kind x = Plain)
                      \<and> extensible x \<and> \<not> isVue x")
          case True
          from creating[OF \<open>getObj s a = Some x\<close> None] obtain b s' where
            c: "newObserver_with obs n a s = Ok (b, s')" and f: "props_frame {} s s'" by blast
          from True c VRef \<open>getObj s a = Some x\<close> nv None
          have "observe_with e obs n v r s = Ok (Some b, if r then incVmCount b s' else s')"
            by (simp add: observe_with_def)
          moreover have "props_frame {} s (if r then incVmCount b s' else s')"
          proof (cases r)
            case True
            from f have "props_frame {} s (incVmCount b s')"
              by (rule props_frame_incVmCount_right)
            with True show ?thesis by simp
          next
            case False
            with f show ?thesis by simp
          qed
          ultimately show ?thesis by blast
        next
          case False
          then have c: "(shouldObserve s \<and> \<not> serverRendering e \<and> (kind x = Array \<or> kind x = Plain)
                      \<and> extensible x \<and> \<not> isVue x) = False" by simp
          from VRef \<open>getObj s a = Some x\<close> nv None
          have "observe_with e obs n v r s = Ok (None, s)"
            by (simp add: observe_with_def c)
          moreover have "props_frame {} s s" by simp
          ultimately show ?thesis by blast
        qed
      qed
    qed
  qed
qed (simp_all add: observe_with_def)

lemma obs_total_Suc:
  assumes "obs_total K obs" and "obs_ok obs"
  shows "obs_total (Suc K) (observe_with e obs n)"
  unfolding obs_total_def
proof (intro allI impI)
  fix v r s assume h: "data_store s \<and> unobserved s \<le> Suc K"
  show "\<exists>res s'. observe_with e obs n v r s = Ok (res, s') \<and> props_frame {} s s'"
  proof (rule observe_with_total_aux)
    fix a x assume "getObj s a = Some x" and "ob x = None"
    with newObserver_with_total[OF assms, of s a x n] h
    show "\<exists>b s'. newObserver_with obs n a s = Ok (b, s') \<and> props_frame {} s s'" by simp
  qed
qed

lemma obs_total_0: "obs_total 0 (observe_with e obs n)"
  unfolding obs_total_def
proof (intro allI impI)
  fix v r s assume h: "data_store s \<and> unobserved s \<le> 0"
  then have all: "\<forall>x \<in> set (objs s). ob x \<noteq> None"
    by (simp add: unobserved_def filter_empty_conv)
  show "\<exists>res s'. observe_with e obs n v r s = Ok (res, s') \<and> props_frame {} s s'"
  proof (rule observe_with_total_aux)
    fix a x assume x: "getObj s a = Some x" and n: "ob x = None"
    from x have "x \<in> set (objs s)" by (auto simp: getObj_def lookup_def split: if_splits)
    with all n have False by auto
    then show "\<exists>b s'. newObserver_with obs n a s = Ok (b, s') \<and> props_frame {} s s'" ..
  qed
qed

lemma obs_total_observe: "obs_total n (observe n e)"
proof (induction n)
  case 0
  show ?case using obs_total_0[of e "\<lambda>v r s. OutOfFuel" 0] by simp
next
  case (Suc n)
  show ?case using obs_total_Suc[OF Suc obs_ok_observe, of e n] by simp
qed

text \<open>
  On a store of plain data \<open>observe\<close> returns, for every bound that is at least the
  number of objects without Observer, and always with the same result.
\<close>

lemma observe_total:
  assumes "data_store s" and "unobserved s \<le> n"
  shows "\<exists>res s'. observe n e v r s = Ok (res, s')"
  using obs_total_observe[of n e] assms unfolding obs_total_def by blast

lemma observe_total_mono:
  assumes "data_store s" and "unobserved s \<le> n"
  shows "\<exists>res s'. \<forall>k. observe (n + k) e v r s = Ok (res, s')"
proof -
  from observe_total[OF assms, of e v r] obtain res s' where "observe n e v r s = Ok (res, s')"
    by blast
  then have "\<forall>k. observe (n + k) e v r s = Ok (res, s')" by (simp add: observe_mono)
  then show ?thesis by blast
qed

section \<open>observe that returns no Observer\<close>

lemma observe_None_repeat:
  assumes "observe n e v r s = Ok (None, s')"
  shows "observe m e v r' s = Ok (None, s)"
proof -
  let ?obs = "case n of 0 \<Rightarrow> (\<lambda>v r s. OutOfFuel) | Suc k \<Rightarrow> observe k e"
  let ?n = "case n of 0 \<Rightarrow> 0 | Suc k \<Rightarrow> k"
  have h: "observe_with e ?obs ?n v r s = Ok (None, s')"
    using assms by (simp add: observe_unfold[of n])
  show ?thesis
  proof (cases v)
    case (VRef a)
    show ?thesis
    proof (cases "getObj s a")
      case None
      with VRef show ?thesis by (simp add: observe_unfold[of m] observe_with_def)
    next
      case (Some x)
      show ?thesis
      proof (cases "isVNode x")
        case True
        with VRef Some show ?thesis by (simp add: observe_unfold[of m] observe_with_def)
      next
        case False
        note nv = this
        show ?thesis
        proof (cases "ob x")
          case (Some b)
          with h VRef \<open>getObj s a = Some x\<close> nv have False
            by (simp add: observe_with_def split: if_splits)
          then show ?thesis ..
        next
          case None
          show ?thesis
          proof (cases "shouldObserve s \<and> \<not> serverRendering e \<and> (kind x = Array \<or> kind x = Plain)
                        \<and> extensible x \<and> \<not> isVue x")
            case True
            with h VRef \<open>getObj s a = Some x\<close> nv None
            have "rbind (rbind (newObserver_with ?obs ?n a s) (\<lambda>(b, s'). Ok (Some b, s')))
                    (\<lambda>(r', s1). case r' of
                        Some b \<Rightarrow> if r then Ok (Some b, incVmCount b s1) else Ok (Some b, s1)
                      | None \<Rightarrow> Ok (None, s1)) = Ok (None, s')"
              by (simp add: observe_with_def)
            then have False
              by (cases "newObserver_with ?obs ?n a s") (auto split: if_splits)
            then show ?thesis ..
          next
            case False
            then have c: "(shouldObserve s \<and> \<not> serverRendering e \<and> (kind x = Array \<or> kind x = Plain)
                        \<and> extensible x \<and> \<not> isVue x) = False" by simp
            from VRef \<open>getObj s a = Some x\<close> nv None show ?thesis
              by (simp add: observe_unfold[of m] observe_with_def c)
          qed
        qed
      qed
    qed
  qed (simp_all add: observe_unfold[of m] observe_with_def)
qed

section \<open>observe leaves the properties of observed objects alone\<close>

lemma frame_step:
  assumes "props_frame A s s1 \<and> ob_stable s s1" and "props_frame A s1 s2 \<and> ob_stable s1 s2"
  shows "props_frame A s s2 \<and> ob_stable s s2"
  using assms props_frame_trans[of A s s1 s2] ob_stable_trans[of s s1 s2] by blast

lemma frame_objs:
  "objs s' = objs s \<Longrightarrow> observers s' = observers s \<Longrightarrow> shouldObserve s' = shouldObserve s
   \<Longrightarrow> props_frame A s s' \<and> ob_stable s s'"
  by (simp add: props_frame_objs ob_stable_objs)

lemma frame_same_heap: "same_heap s s' \<Longrightarrow> props_frame A s s' \<and> ob_stable s s'"
  by (rule frame_objs) (simp_all add: same_heap_def)

lemma same_heap_getProp: "getProp n a k s = Ok (v, s') \<Longrightarrow> same_heap s s'"
  by (auto simp: getProp_def split: option.splits pdesc.splits dest!: same_heap_call_get)

lemma frame_getProp: "getProp n a k s = Ok (v, s') \<Longrightarrow> props_frame A s s' \<and> ob_stable s s'"
  by (rule frame_same_heap) (rule same_heap_getProp)

lemma defineProperty_putObj:
  "defineProperty a k p s = Ok s'
   \<Longrightarrow> \<exists>x. getObj s a = Some x \<and> s' = putObj a (x\<lparr>props := setProp k p (props x)\<rparr>) s"
  by (auto simp: defineProperty_def split: option.splits if_splits)

lemma defineReactive_with_frame:
  assumes fr: "obs_frame obs" and ok: "obs_ok obs"
    and d: "defineReactive_with obs n a k valopt cs sh s = Ok s'"
    and nk: "k \<noteq> Name ''__ob__''"
  shows "props_frame {a} s s' \<and> ob_stable s s'"
proof -
  let ?s1 = "snd (newDep s)"
  have s1: "props_frame {a} s ?s1 \<and> ob_stable s ?s1"
    by (rule frame_objs) (simp_all add: newDep_def)
  show ?thesis
  proof (cases "getObj ?s1 a")
    case None
    with d show ?thesis by (simp add: defineReactive_with_def Let_def)
  next
    case (Some x)
    show ?thesis
    proof (cases "case ownProp x k of Some p \<Rightarrow> \<not> pconf p | None \<Rightarrow> False")
      case True
      with d Some s1 show ?thesis by (simp add: defineReactive_with_def Let_def)
    next
      case False
      with d Some obtain v s2 childOb s3 where
        a: "(if (getterOf (ownProp x k) = None \<or> setterOf (ownProp x k) \<noteq> None) \<and> valopt = None
             then getProp n a k ?s1
             else Ok (case valopt of Some v \<Rightarrow> v | None \<Rightarrow> VUndef, ?s1)) = Ok (v, s2)"
        and b: "(if sh then Ok (None, s2) else obs v False s2) = Ok (childOb, s3)"
        and c: "defineProperty a k
                  (AccessorProp (Some (ReactiveGetter (length (closures s3))))
                     (Some (ReactiveSetter (length (closures s3)))) True True)
                  (s3\<lparr>closures := closures s3 @
                       [newClosure a (fst (newDep s)) v childOb (getterOf (ownProp x k))
                          (setterOf (ownProp x k)) sh cs]\<rparr>) = Ok s'"
        by (auto simp: defineReactive_with_def Let_def rbind_Ok_iff)
      let ?s4 = "s3\<lparr>closures := closures s3 @
                       [newClosure a (fst (newDep s)) v childOb (getterOf (ownProp x k))
                          (setterOf (ownProp x k)) sh cs]\<rparr>"
      have h2: "props_frame {a} ?s1 s2 \<and> ob_stable ?s1 s2"
      proof (cases "(getterOf (ownProp x k) = None \<or> setterOf (ownProp x k) \<noteq> None) \<and> valopt = None")
        case True
        with a have "getProp n a k ?s1 = Ok (v, s2)" by simp
        then show ?thesis by (rule frame_getProp)
      next
        case False
        with a have "s2 = ?s1" by auto
        then show ?thesis by simp
      qed
      have h3: "props_frame {a} s2 s3 \<and> ob_stable s2 s3"
      proof (cases sh)
        case True
        with b show ?thesis by simp
      next
        case False
        with b have o: "obs v False s2 = Ok (childOb, s3)" by simp
        from fr o have "props_frame {} s2 s3" unfolding obs_frame_def by blast
        then have "props_frame {a} s2 s3" by (rule props_frame_mono) simp
        moreover from ok o have "ob_stable s2 s3" unfolding obs_ok_def by blast
        ultimately show ?thesis by simp
      qed
      have h4: "props_frame {a} s3 ?s4 \<and> ob_stable s3 ?s4"
        by (rule frame_objs) simp_all
      from defineProperty_putObj[OF c] obtain y where "s' = putObj a y ?s4" by blast
      then have "props_frame {a} ?s4 s'" by (simp add: props_frame_putObj)
      moreover have "ob_stable ?s4 s'" by (rule ob_stable_defineProperty[OF c nk]) simp
      ultimately have h5: "props_frame {a} ?s4 s' \<and> ob_stable ?s4 s'" by simp
      from frame_step[OF frame_step[OF frame_step[OF frame_step[OF s1 h2] h3] h4] h5]
      show ?thesis .
    qed
  qed
qed

lemma walk_with_frame:
  "obs_frame obs \<Longrightarrow> obs_ok obs \<Longrightarrow> walk_with obs n a ks s = Ok s' \<Longrightarrow> Name ''__ob__'' \<notin> set ks
   \<Longrightarrow> props_frame {a} s s' \<and> ob_stable s s'"
proof (induction ks arbitrary: s)
  case Nil
  then show ?case by simp
next
  case (Cons k ks)
  from Cons.prems(3) obtain s1 where a: "defineReactive_with obs n a k None False False s = Ok s1"
    and b: "walk_with obs n a ks s1 = Ok s'"
    by (auto simp: rbind_Ok_iff)
  from Cons.prems(4) have nk: "k \<noteq> Name ''__ob__''" and nks: "Name ''__ob__'' \<notin> set ks"
    by auto
  from frame_step[OF defineReactive_with_frame[OF Cons.prems(1,2) a nk]
      Cons.IH[OF Cons.prems(1,2) b nks]]
  show ?case .
qed

lemma observeArray_with_frame:
  "obs_frame obs \<Longrightarrow> obs_ok obs \<Longrightarrow> observeArray_with obs vs s = Ok s'
   \<Longrightarrow> props_frame {} s s' \<and> ob_stable s s'"
proof (induction vs arbitrary: s)
  case Nil
  then show ?case by simp
next
  case (Cons v vs)
  from Cons.prems(3) obtain r s1 where a: "obs v False s = Ok (r, s1)"
    and b: "observeArray_with obs vs s1 = Ok s'"
    by (auto simp: rbind_Ok_iff)
  from a Cons.prems(1) have "props_frame {} s s1" unfolding obs_frame_def by blast
  moreover from a Cons.prems(2) have "ob_stable s s1" unfolding obs_ok_def by blast
  ultimately have "props_frame {} s s1 \<and> ob_stable s s1" by simp
  from frame_step[OF this Cons.IH[OF Cons.prems(1,2) b]] show ?case .
qed

lemma props_frame_drop:
  assumes "props_frame {a} s s'" and "getObj s a = Some x" and "ob x = None"
    and "getObj s' a = Some x'" and "ob x' \<noteq> None"
  shows "props_frame {} s s'"
  unfolding props_frame_def
proof (intro allI impI)
  fix a' y y' assume y: "getObj s a' = Some y" and y': "getObj s' a' = Some y'"
    and c: "ob y \<noteq> None \<or> ob y' = None"
  show "props y' = props y"
  proof (cases "a' = a")
    case True
    with y y' assms(2,4) have "y = x" "y' = x'" by simp_all
    with c assms(3,5) show ?thesis by simp
  next
    case False
    with assms(1) y y' c show ?thesis unfolding props_frame_def by blast
  qed
qed

lemma newObserver_with_frame:
  assumes fr: "obs_frame obs" and ok: "obs_ok obs"
    and x: "getObj s a = Some x" and obx: "ob x = None"
    and nw: "newObserver_with obs n a s = Ok (b, s')"
  shows "props_frame {} s s'"
proof -
  let ?b = "length (observers (snd (newDep s)))"
  let ?s2 = "(snd (newDep s))\<lparr>observers := observers (snd (newDep s))
      @ [\<lparr>ovalue = a, odep = fst (newDep s), vmCount = 0\<rparr>]\<rparr>"
  let ?x3 = "x\<lparr>props := setProp (Name ''__ob__'') (ObProp ?b True False True) (props x)\<rparr>"
  let ?s3 = "def_ob a ?b ?s2"
  have o2: "objs ?s2 = objs s" by (simp add: newDep_def)
  have x2: "getObj ?s2 a = Some x" using x by (simp add: getObj_def o2)
  have s3: "?s3 = putObj a ?x3 ?s2" using x2 by (rule def_ob_putObj)
  have x3: "getObj ?s3 a = Some ?x3" unfolding s3 using x2 by (rule getObj_putObj_same)
  have ob3: "ob ?x3 \<noteq> None" by (simp add: ob_def_ob)
  have st2: "ob_stable s ?s2"
    by (auto simp: newDep_def ob_stable_def obDep_def lookup_def nth_append split: if_splits)
  have st3: "ob_stable ?s2 ?s3" by (rule ob_stable_def_ob[OF x2 obx])
  have f2: "props_frame {a} s ?s2" using o2 by (rule props_frame_objs)
  have f3: "props_frame {a} ?s2 ?s3" unfolding s3 by (rule props_frame_putObj)
  have h3: "props_frame {a} s ?s3 \<and> ob_stable s ?s3"
    using frame_step[of "{a}" s ?s2 ?s3] f2 f3 st2 st3 by blast
  from nw obtain s4 where
    c: "(if isArray ?s3 (VRef a) then observeArray_with obs (elemsOf ?s3 (VRef a)) (augment a ?s3)
         else walk_with obs n a (case getObj ?s3 a of Some x \<Rightarrow> keys x | None \<Rightarrow> []) ?s3) = Ok s4"
    and d: "s' = s4"
    by (auto simp: newObserver_with_def Let_def rbind_Ok_iff split: if_splits)
  have h4: "props_frame {a} ?s3 s' \<and> ob_stable ?s3 s'"
  proof (cases "isArray ?s3 (VRef a)")
    case True
    with c d have w: "observeArray_with obs (elemsOf ?s3 (VRef a)) (augment a ?s3) = Ok s'" by simp
    have "augment a ?s3 = putObj a (?x3\<lparr>augmented := True\<rparr>) ?s3" using x3 by (simp add: augment_def)
    then have "props_frame {a} ?s3 (augment a ?s3)" by (simp add: props_frame_putObj)
    then have ha: "props_frame {a} ?s3 (augment a ?s3) \<and> ob_stable ?s3 (augment a ?s3)"
      by (simp add: ob_stable_augment)
    from observeArray_with_frame[OF fr ok w]
    have "props_frame {a} (augment a ?s3) s' \<and> ob_stable (augment a ?s3) s'"
      using props_frame_mono[of "{}" "augment a ?s3" s' "{a}"] by simp
    from frame_step[OF ha this] show ?thesis .
  next
    case False
    with c d have w: "walk_with obs n a (keys ?x3) ?s3 = Ok s'" by (simp add: x3)
    from walk_with_frame[OF fr ok w keys_def_ob] show ?thesis .
  qed
  from frame_step[OF h3 h4] have h: "props_frame {a} s s'" and st: "ob_stable s s'" by simp_all
  from h3 h4 have "ob_stable ?s3 s'" by simp
  from ob_stable_getObj[OF this x3] ob3 obtain x' where x': "getObj s' a = Some x'"
    and "ob x' \<noteq> None" by auto
  with props_frame_drop[OF h x obx] show ?thesis by blast
qed

lemma observe_with_frame:
  assumes "obs_frame obs" and "obs_ok obs" and "observe_with e obs n v r s = Ok (res, s')"
  shows "props_frame {} s s'"
proof (cases v)
  case (VRef a)
  show ?thesis
  proof (cases "getObj s a")
    case None
    with assms(3) VRef show ?thesis by (simp add: observe_with_def)
  next
    case (Some x)
    show ?thesis
    proof (cases "isVNode x")
      case True
      with assms(3) VRef Some show ?thesis by (simp add: observe_with_def)
    next
      case False
      note nv = this
      show ?thesis
      proof (cases "ob x")
        case (Some b)
        with assms(3) VRef \<open>getObj s a = Some x\<close> nv
        have "s' = (if r then incVmCount b s else s)"
          by (auto simp: observe_with_def split: if_splits)
        then show ?thesis by (simp add: props_frame_incVmCount)
      next
        case None
        show ?thesis
        proof (cases "shouldObserve s \<and> \<not> serverRendering e \<and> (kind x = Array \<or> kind x = Plain)
                      \<and> extensible x \<and> \<not> isVue x")
          case True
          with assms(3) VRef \<open>getObj s a = Some x\<close> nv None obtain b s1 where
            a: "newObserver_with obs n a s = Ok (b, s1)"
            and c: "s' = (if r then incVmCount b s1 else s1)"
            by (auto simp: observe_with_def rbind_Ok_iff split: if_splits)
          from newObserver_with_frame[OF assms(1,2) \<open>getObj s a = Some x\<close> None a]
          have f: "props_frame {} s s1" .
          show ?thesis
          proof (cases r)
            case True
            with c f show ?thesis by (simp add: props_frame_incVmCount_right)
          next
            case False
            with c f show ?thesis by simp
          qed
        next
          case False
          then have c: "(shouldObserve s \<and> \<not> serverRendering e \<and> (kind x = Array \<or> kind x = Plain)
                      \<and> extensible x \<and> \<not> isVue x) = False" by simp
          from assms(3) VRef \<open>getObj s a = Some x\<close> nv None have "s' = s"
            by (simp add: observe_with_def c)
          then show ?thesis by simp
        qed
      qed
    qed
  qed
qed (use assms(3) in \<open>auto simp: observe_with_def\<close>)

lemma obs_frame_observe: "obs_frame (observe n e)"
proof (induction n)
  case 0
  have "obs_frame (\<lambda>v r s. OutOfFuel)" by (simp add: obs_frame_def)
  moreover have "obs_ok (\<lambda>v r s. OutOfFuel)" by (simp add: obs_ok_def)
  ultimately show ?case
    unfolding obs_frame_def[of "observe 0 e"] using observe_with_frame by auto
next
  case (Suc n)
  show ?case
    unfolding obs_frame_def[of "observe (Suc n) e"]
    using observe_with_frame[OF Suc obs_ok_observe] by auto
qed

text \<open>An object that has an Observer keeps its properties through \<open>observe\<close>.\<close>

lemma observe_keeps_props:
  assumes "observe n e v r s = Ok (res, s')" and "getObj s a = Some x" and "ob x \<noteq> None"
  shows "\<exists>x'. getObj s' a = Some x' \<and> props x' = props x"
proof -
  from observe_ob[OF assms(1)] have "ob_stable s s'" by simp
  from ob_stable_getObj[OF this assms(2)] obtain x' where x': "getObj s' a = Some x'" by blast
  from obs_frame_observe[of n e] assms(1) have "props_frame {} s s'"
    unfolding obs_frame_def by blast
  with assms(2,3) x' have "props x' = props x" unfolding props_frame_def by blast
  with x' show ?thesis by blast
qed

section \<open>notify iterates a snapshot\<close>

text \<open>
  C5. \<open>notify\<close> copies the subscriber list when the call starts (and, in a development
  build that is not asynchronous, sorts the copy by watcher id). The watchers whose
  \<open>update\<close> the call runs are exactly those of that copy, each once and in its order,
  and the store the call leaves is the one these updates produce one after the other,
  starting from the store of the call: whatever an \<open>update\<close> does to the subscriber
  lists, it is still the copy that is run to its end.
\<close>

theorem notify_snapshot:
  "fst (notify e d s) =
     CNotify d # map CUpdate (if \<not> production e \<and> \<not> async e then sort (subs s d) else subs s d)
   \<and> snd (notify e d s) =
       fold (update e) (if \<not> production e \<and> \<not> async e then sort (subs s d) else subs s d) s"
  by (simp add: fst_notify snd_notify)

text \<open>
  Three subscribers; the \<open>update\<close> of the first one run unsubscribes every watcher, and
  the other two are updated all the same.
\<close>

theorem notify_snapshot_witness:
  "notify dropping_env 0 (empty_state\<lparr>deps := [[3, 1, 2]]\<rparr>)
     = ([CNotify 0, CUpdate 3, CUpdate 1, CUpdate 2], empty_state\<lparr>deps := [[]]\<rparr>)
   \<and> subs (empty_state\<lparr>deps := [[3, 1, 2]]\<rparr>) 0 = [3, 1, 2]
   \<and> fold (update dropping_env) [3] (empty_state\<lparr>deps := [[3, 1, 2]]\<rparr>) = empty_state\<lparr>deps := [[]]\<rparr>"
  using notify_snapshot [of dropping_env 0 "empty_state\<lparr>deps := [[3, 1, 2]]\<rparr>"]
  by (simp add: dropping_env_def quiet_env_def subs_def lookup_def empty_state_def prod_eq_iff)

section \<open>defineReactive on a property that is not configurable\<close>

text \<open>
  C9. When the own property descriptor of \<open>key\<close> has \<open>configurable === false\<close>,
  \<open>defineReactive\<close> returns normally (it does not throw), and the store it leaves
  differs from the one it found only by the Dep that \<open>new Dep()\<close> allocated before
  the check: the object, its property and every closure are untouched.
\<close>

theorem defineReactive_non_configurable:
  assumes "getObj s a = Some x" and "ownProp x k = Some p" and "\<not> pconf p"
  shows "defineReactive n e a k valopt customSetter shallow s = Ok (s\<lparr>deps := deps s @ [[]]\<rparr>)"
  using assms by (simp add: defineReactive_def defineReactive_with_def newDep_def getObj_def)

theorem defineReactive_non_configurable_witness:
  "defineReactive 0 quiet_env 0 (Name ''a'') None False False sealed_state
     = Ok (sealed_state\<lparr>deps := [[]]\<rparr>)"
  using defineReactive_non_configurable [of sealed_state 0 "plainObj [(Name ''a'', DataProp (VNum 1) True True False)]"
      "Name ''a''" "DataProp (VNum 1) True True False" 0 quiet_env None False False]
  by (simp add: sealed_state_def empty_state_def plainObj_def getObj_def lookup_def ownProp_def)

section \<open>A property that had a getter and no setter\<close>

text \<open>
  C10. When the property had a getter and no setter before \<open>defineReactive\<close>, a write
  of a value that differs from what the getter returns is dropped: the store after the
  call is the store after reading the current value (no object, closure, Observer or
  cell has changed), \<open>observe\<close> is not called on the new value, and no \<open>notify\<close> and no
  \<open>update\<close> is among the calls; the only call there can be is the \<open>customSetter\<close> of
  a development build.
\<close>

theorem getter_only_write_dropped:
  assumes "lookup (closures s) c = Some cl" and "cgetter cl = Some g" and "csetter cl = None"
    and "call_get n g s = Ok (vl, s1)" and "\<not> unchanged newVal vl"
  shows "call_set n e (ReactiveSetter c) newVal s
           = Ok (if \<not> production e \<and> ccustomSetter cl then [CCustomSetter] else [], s1)
         \<and> same_heap s s1"
  using assms same_heap_call_get[of n g s vl s1]
  by (simp add: call_set_unfold[of n] call_set_with_def)

theorem getter_only_write_dropped_witness:
  "call_set 0 quiet_env (ReactiveSetter 0) (VNum 2) (getter_only_state\<lparr>deps := [[7]]\<rparr>)
     = Ok ([], getter_only_state\<lparr>deps := [[7]]\<rparr>)"
  using getter_only_write_dropped [of "getter_only_state\<lparr>deps := [[7]]\<rparr>" 0
      "newClosure 0 0 VUndef None (Some (UserGetter 0)) None False False" "UserGetter 0" 0
      "VNum 1" "getter_only_state\<lparr>deps := [[7]]\<rparr>" "VNum 2" quiet_env]
  by (simp add: getter_only_state_def empty_state_def newClosure_def lookup_def unchanged_def
      strict_eq_def quiet_env_def)

section \<open>Writing through reactiveSetter\<close>

text \<open>
  C2, as stated, fails for a property that had a getter and no setter: the property
  below is installed by \<open>defineReactive\<close>, the value written differs from the current
  one, and the write neither stores, nor observes, nor notifies.
\<close>

theorem reactiveSetter_write_counterexample:
  "defineReactive 0 quiet_env 0 (Name ''a'') None False False accessor_state = Ok getter_only_state
   \<and> call_get 1 (ReactiveGetter 0) getter_only_state = Ok (VNum 1, getter_only_state)
   \<and> \<not> unchanged (VNum 2) (VNum 1)
   \<and> call_set 0 quiet_env (ReactiveSetter 0) (VNum 2) getter_only_state = Ok ([], getter_only_state)"
  by (simp add: defineReactive_def defineReactive_with_def accessor_state_def getter_only_state_def
      empty_state_def plainObj_def newDep_def getObj_def lookup_def ownProp_def getterOf_def
      setterOf_def observe_with_def defineProperty_def putObj_def setProp_def newClosure_def
      subscribeRead_def call_set_with_def unchanged_def strict_eq_def quiet_env_def)

text \<open>
  C2, amended. Let \<open>vl\<close> be the current value of a reactive property (what the getter
  it had before returns, or the closure's \<open>val\<close>). A write of a value identical to
  \<open>vl\<close> (NaN counts as identical to NaN) returns with no call made and without
  observing. A write of another value, to a property that did not have a getter
  without a setter, passes the value to the setter the property had before or else
  stores it in the closure, then observes it unless the property is shallow, then
  calls \<open>notify\<close> on the property's Dep once, after every other call: the calls are
  the \<open>customSetter\<close> of a development build, those of the earlier setter, and one
  \<open>notify\<close> with the \<open>update\<close> of each subscriber.
\<close>

theorem reactiveSetter_write:
  assumes "lookup (closures s) c = Some cl"
    and "(case cgetter cl of Some g \<Rightarrow> call_get n g s | None \<Rightarrow> Ok (cval cl, s)) = Ok (vl, s1)"
  shows "(unchanged newVal vl \<longrightarrow> call_set n e (ReactiveSetter c) newVal s = Ok ([], s1))
    \<and> (\<not> unchanged newVal vl \<and> \<not> (cgetter cl \<noteq> None \<and> csetter cl = None)
        \<and> (case csetter cl of
              Some st \<Rightarrow> (case n of 0 \<Rightarrow> OutOfFuel | Suc m \<Rightarrow> call_set m e st newVal s1)
            | None \<Rightarrow> Ok ([], setCval c newVal s1)) = Ok (cs2, s2)
        \<and> (if cshallow cl then Ok (None, s2) else observe n e newVal False s2) = Ok (childOb, s3)
       \<longrightarrow> call_set n e (ReactiveSetter c) newVal s
           = Ok ((if \<not> production e \<and> ccustomSetter cl then [CCustomSetter] else []) @ cs2
                 @ CNotify (cdep cl)
                   # map CUpdate (if \<not> production e \<and> \<not> async e
                                  then sort (subs (setChildOb c childOb s3) (cdep cl))
                                  else subs (setChildOb c childOb s3) (cdep cl)),
                 snd (notify e (cdep cl) (setChildOb c childOb s3))))"
proof (intro conjI impI)
  assume "unchanged newVal vl"
  with assms show "call_set n e (ReactiveSetter c) newVal s = Ok ([], s1)"
    by (simp add: call_set_unfold[of n] call_set_with_def)
next
  assume h: "\<not> unchanged newVal vl \<and> \<not> (cgetter cl \<noteq> None \<and> csetter cl = None)
        \<and> (case csetter cl of
              Some st \<Rightarrow> (case n of 0 \<Rightarrow> OutOfFuel | Suc m \<Rightarrow> call_set m e st newVal s1)
            | None \<Rightarrow> Ok ([], setCval c newVal s1)) = Ok (cs2, s2)
        \<and> (if cshallow cl then Ok (None, s2) else observe n e newVal False s2) = Ok (childOb, s3)"
  have st: "(case csetter cl of
              Some st' \<Rightarrow> (case n of 0 \<Rightarrow> (\<lambda>st v s. OutOfFuel) | Suc m \<Rightarrow> call_set m e) st' newVal s1
            | None \<Rightarrow> Ok ([], setCval c newVal s1)) = Ok (cs2, s2)"
    using h by (cases n) (auto split: option.splits)
  show "call_set n e (ReactiveSetter c) newVal s
           = Ok ((if \<not> production e \<and> ccustomSetter cl then [CCustomSetter] else []) @ cs2
                 @ CNotify (cdep cl)
                   # map CUpdate (if \<not> production e \<and> \<not> async e
                                  then sort (subs (setChildOb c childOb s3) (cdep cl))
                                  else subs (setChildOb c childOb s3) (cdep cl)),
                 snd (notify e (cdep cl) (setChildOb c childOb s3)))"
    using assms h st
    by (simp add: call_set_unfold[of n] call_set_with_def fst_notify Let_def del: notify_loop.simps)
qed

theorem reactiveSetter_write_witness:
  "call_set 0 quiet_env (ReactiveSetter 0) (VNum 1) (reactive_state\<lparr>deps := [[], [7]]\<rparr>)
       = Ok ([], reactive_state\<lparr>deps := [[], [7]]\<rparr>)
   \<and> call_set 0 quiet_env (ReactiveSetter 0) (VNum 2) (reactive_state\<lparr>deps := [[], [7]]\<rparr>)
       = Ok ([CNotify 1, CUpdate 7],
             reactive_state\<lparr>deps := [[], [7]], closures := [newClosure 0 1 (VNum 2) None None None False False]\<rparr>)"
  using reactiveSetter_write [of "reactive_state\<lparr>deps := [[], [7]]\<rparr>" 0 "newClosure 0 1 (VNum 1) None None None False False"
        0 "VNum 1" "reactive_state\<lparr>deps := [[], [7]]\<rparr>" "VNum 1" quiet_env]
    reactiveSetter_write [of "reactive_state\<lparr>deps := [[], [7]]\<rparr>" 0 "newClosure 0 1 (VNum 1) None None None False False"
        0 "VNum 1" "reactive_state\<lparr>deps := [[], [7]]\<rparr>" "VNum 2" quiet_env "[]" "setCval 0 (VNum 2) (reactive_state\<lparr>deps := [[], [7]]\<rparr>)"
        None "setCval 0 (VNum 2) (reactive_state\<lparr>deps := [[], [7]]\<rparr>)"]
  by (simp add: reactive_state_def empty_state_def newClosure_def lookup_def unchanged_def
      strict_eq_def quiet_env_def setCval_def setChildOb_def observe_with_def subs_def notify_def)

section \<open>observe is idempotent\<close>

text \<open>
  C1. When \<open>observe(x)\<close> has returned an Observer, a second \<open>observe(x)\<close> returns the
  same Observer, found through \<open>x.__ob__\<close>, and leaves the store as it is: no Dep, no
  closure and no accessor is created again. Called with \<open>asRootData\<close>, the second call
  returns the same Observer too and only counts \<open>vmCount\<close> up. The second call needs
  no recursion, so it returns for every bound, and in every environment. On a store
  of plain data, and with a bound that is at least the number of objects without
  Observer, the first call returns, and the second call returns the same as the first
  and leaves the store as the first call left it.
\<close>

theorem observe_idempotent:
  "(observe n e x asRootData s = Ok (Some b, s1) \<longrightarrow>
      observe m e' x False s1 = Ok (Some b, s1)
      \<and> observe m e' x True s1 = Ok (Some b, incVmCount b s1)
      \<and> closures (incVmCount b s1) = closures s1 \<and> objs (incVmCount b s1) = objs s1)
   \<and> (data_store s \<and> unobserved s \<le> n \<longrightarrow>
        (\<exists>res s2. observe n e x False s = Ok (res, s2) \<and> observe m e x False s2 = Ok (res, s2)))"
proof (intro conjI impI)
  assume a: "observe n e x asRootData s = Ok (Some b, s1)"
  from observe_Some_not_VNode[OF a] obtain a' y where
    x: "x = VRef a'" and y: "getObj s a' = Some y" and nv: "\<not> isVNode y" by blast
  from observe_ob[OF a] have st: "ob_stable s s1" and o: "obOf s1 x = Some b" by auto
  from ob_stable_isVNode[OF st y] obtain y' where y': "getObj s1 a' = Some y'"
    and nv': "isVNode y' = isVNode y" by blast
  from o x y' have oy: "ob y' = Some b" by (simp add: obOf_def)
  from observe_existing[OF y' _ oy, of m e' False] nv nv' x
  show "observe m e' x False s1 = Ok (Some b, s1)" by simp
  from observe_existing[OF y' _ oy, of m e' True] nv nv' x
  show "observe m e' x True s1 = Ok (Some b, incVmCount b s1)" by simp
  show "closures (incVmCount b s1) = closures s1"
    by (simp add: incVmCount_def split: option.splits)
  show "objs (incVmCount b s1) = objs s1"
    by (simp add: incVmCount_def split: option.splits)
next
  assume d: "data_store s \<and> unobserved s \<le> n"
  then obtain res s2 where a: "observe n e x False s = Ok (res, s2)"
    using observe_total[of s n e x False] by blast
  have "observe m e x False s2 = Ok (res, s2)"
  proof (cases res)
    case None
    with observe_ob[OF a] have "s2 = s" by simp
    with a None observe_None_repeat[of n e x False s s2 m False] show ?thesis by simp
  next
    case (Some b)
    with a have a': "observe n e x False s = Ok (Some b, s2)" by simp
    from observe_Some_not_VNode[OF a'] obtain a'' y where
      x: "x = VRef a''" and y: "getObj s a'' = Some y" and nv: "\<not> isVNode y" by blast
    from observe_ob[OF a'] have st: "ob_stable s s2" and o: "obOf s2 x = Some b" by auto
    from ob_stable_isVNode[OF st y] obtain y' where y': "getObj s2 a'' = Some y'"
      and nv': "isVNode y' = isVNode y" by blast
    from o x y' have oy: "ob y' = Some b" by (simp add: obOf_def)
    from observe_existing[OF y' _ oy, of m e False] nv nv' x Some show ?thesis by simp
  qed
  with a show "\<exists>res s2. observe n e x False s = Ok (res, s2) \<and> observe m e x False s2 = Ok (res, s2)"
    by blast
qed

theorem observe_idempotent_witness:
  "observe 1 quiet_env (VRef 0) False plain_state = Ok (Some 0, reactive_state)
   \<and> observe 0 quiet_env (VRef 0) False reactive_state = Ok (Some 0, reactive_state)
   \<and> data_store plain_state \<and> unobserved plain_state = 1"
proof -
  have h: "observe 1 quiet_env (VRef 0) False plain_state = Ok (Some 0, reactive_state)"
    by (simp add: observe_with_def plain_state_def reactive_state_def empty_state_def plainObj_def
      getObj_def ob_def isVue_def obProp_def lookup_def quiet_env_def newObserver_with_def
      newDep_def def_ob_def putObj_def
      isArray_def keys_def Let_def indexKeys_def nameKeys_def List.map_filter_simps
      defineReactive_with_def ownProp_def getterOf_def setterOf_def getProp_def
      defineProperty_def setProp_def newClosure_def)
  have d: "data_store plain_state \<and> unobserved plain_state = 1"
    by (simp add: data_store_def unobserved_def plain_state_def empty_state_def plainObj_def ob_def)
  from observe_idempotent [of 1 quiet_env "VRef 0" False plain_state 0 reactive_state 0 quiet_env] h d
  show ?thesis by simp
qed

section \<open>Reading through reactiveGetter\<close>





section \<open>The intercepted array methods\<close>

text \<open>
  C3. For each of the seven intercepted methods, called on an array that has an
  Observer: when the built-in returns and \<open>observeArray\<close> of the inserted elements
  returns, the interceptor returns the result of the built-in unchanged, and between
  the two it calls \<open>notify\<close> on the Dep of the array's own Observer exactly once, as
  its only call. The inserted elements are the arguments of \<open>push\<close> and \<open>unshift\<close>,
  the arguments of \<open>splice\<close> after the first two, and none for \<open>pop\<close>, \<open>shift\<close>,
  \<open>sort\<close> and \<open>reverse\<close>; every inserted element that \<open>observe\<close> accepts has an
  Observer afterwards.
\<close>

theorem mutator_contract:
  assumes "original e m a args s = Ok (result, s1)"
    and "obOf s1 (VRef a) = Some b" and "obDep s1 b = Some d"
    and "(case inserted m args of Some vs \<Rightarrow> observeArray n e vs s1 | None \<Rightarrow> Ok s1) = Ok s2"
  shows "mutator n e m a args s
           = Ok (result,
                 CNotify d # map CUpdate (if \<not> production e \<and> \<not> async e then sort (subs s2 d)
                                          else subs s2 d),
                 snd (notify e d s2))
    \<and> inserted m args = (if m = Push \<or> m = Unshift then Some args
                          else if m = Splice then Some (drop 2 args) else None)
    \<and> (\<forall>v \<in> set (case inserted m args of Some vs \<Rightarrow> vs | None \<Rightarrow> []).
          observable e s1 v \<longrightarrow> obOf s2 v \<noteq> None)"
proof -
  have st: "ob_stable s1 s2"
    using assms(4) by (auto split: option.splits dest: ob_stable_observeArray)
  with assms(3) have d2: "obDep s2 b = Some d" by (simp add: ob_stable_def)
  have 1: "mutator n e m a args s
           = Ok (result,
                 CNotify d # map CUpdate (if \<not> production e \<and> \<not> async e then sort (subs s2 d)
                                          else subs s2 d),
                 snd (notify e d s2))"
    using assms d2 by (simp add: mutator_def fst_notify)
  have 2: "inserted m args = (if m = Push \<or> m = Unshift then Some args
                          else if m = Splice then Some (drop 2 args) else None)"
    by (cases m) (simp_all add: inserted_def)
  have 3: "\<forall>v \<in> set (case inserted m args of Some vs \<Rightarrow> vs | None \<Rightarrow> []).
          observable e s1 v \<longrightarrow> obOf s2 v \<noteq> None"
    using assms(4) by (auto split: option.splits dest: observeArray_observes)
  from 1 2 3 show ?thesis by blast
qed

theorem mutator_contract_witness:
  "mutator 0 push_env Push 0 [VRef 1] array_state = Ok (VNum 1, [CNotify 0, CUpdate 7], pushed_state)
   \<and> observable push_env (array_state\<lparr>objs := [(arrayObj [VRef 1])\<lparr>props := [obProp 0], augmented := True\<rparr>,
                                                  plainObj []]\<rparr>) (VRef 1)
   \<and> obOf pushed_state (VRef 1) = Some 1"
proof -
  let ?s1 = "array_state\<lparr>objs := [(arrayObj [VRef 1])\<lparr>props := [obProp 0], augmented := True\<rparr>, plainObj []]\<rparr>"
  have a: "original push_env Push 0 [VRef 1] array_state = Ok (VNum 1, ?s1)"
    by (simp add: push_env_def quiet_env_def array_state_def empty_state_def getObj_def ob_def
        isVue_def obProp_def lookup_def
        putObj_def arrayObj_def)
  have b: "obOf ?s1 (VRef 0) = Some 0" "obDep ?s1 0 = Some 0"
    by (simp_all add: obOf_def obDep_def getObj_def ob_def isVue_def obProp_def lookup_def
        array_state_def empty_state_def)
  have c: "(case inserted Push [VRef 1] of Some vs \<Rightarrow> observeArray 0 push_env vs ?s1 | None \<Rightarrow> Ok ?s1)
             = Ok pushed_state"
    by (simp add: inserted_def observeArray_def observe_with_def array_state_def pushed_state_def
        empty_state_def plainObj_def arrayObj_def getObj_def ob_def isVue_def obProp_def
        lookup_def push_env_def quiet_env_def
        newObserver_with_def newDep_def def_ob_def putObj_def isArray_def keys_def Let_def
        indexKeys_def nameKeys_def List.map_filter_simps setProp_def)
  have d: "observable push_env ?s1 (VRef 1)"
    by (simp add: observable_def getObj_def ob_def isVue_def obProp_def lookup_def array_state_def
        empty_state_def plainObj_def
        push_env_def quiet_env_def)
  from mutator_contract [OF a b c] d show ?thesis
    by (simp add: pushed_state_def empty_state_def subs_def lookup_def push_env_def quiet_env_def
        notify_def obOf_def getObj_def ob_def isVue_def obProp_def plainObj_def arrayObj_def)
qed

section \<open>set on a plain object\<close>

lemma ownProp_Plain: "kind x = Plain \<Longrightarrow> ownProp x k = map_of (props x) k"
  by (simp add: ownProp_def split: option.splits)

lemma set_js_own:
  assumes "getObj s a = Some x" and "kind x = Plain" and "hasOwn x k" and "\<not> inObjectProto k"
  shows "set_js n e (VRef a) k v s = rbind (assign n e a k v s) (\<lambda>(cs, s1). Ok (v, cs, s1))"
  using assms
  by (simp add: set_js_def warnUnless_def isUndef_def isPrimitive_def inOp_def hasOwn_def)

lemma set_js_own_data:
  assumes "getObj s a = Some x" and "kind x = Plain" and "\<not> inObjectProto k"
    and "map_of (props x) k = Some p" and "\<not> is_AccessorProp p" and "pwritable p"
  shows "set_js n e (VRef a) k v s
           = Ok (v, [], putObj a (x\<lparr>props := setProp k (DataProp v True (penum p) (pconf p)) (props x)\<rparr>) s)"
proof -
  have own: "ownProp x k = Some p" using assms(2,4) by (simp add: ownProp_Plain)
  then have h: "hasOwn x k" by (simp add: hasOwn_def)
  have "assign n e a k v s
          = Ok ([], putObj a (x\<lparr>props := setProp k (DataProp v True (penum p) (pconf p)) (props x)\<rparr>) s)"
    using assms(1,4,5,6) own by (cases p) (simp_all add: assign_def writeData_def)
  with set_js_own[OF assms(1,2) h assms(3), of n e v] show ?thesis by simp
qed

lemma set_js_own_user:
  assumes "getObj s a = Some x" and "kind x = Plain" and "\<not> inObjectProto k"
    and "map_of (props x) k = Some (AccessorProp g (Some (UserSetter c)) en cf)"
  shows "set_js n e (VRef a) k v s = Ok (v, [], s\<lparr>cells := (cells s)[c := v]\<rparr>)"
proof -
  have own: "ownProp x k = Some (AccessorProp g (Some (UserSetter c)) en cf)"
    using assms(2,4) by (simp add: ownProp_Plain)
  then have h: "hasOwn x k" by (simp add: hasOwn_def)
  have "assign n e a k v s = Ok ([], s\<lparr>cells := (cells s)[c := v]\<rparr>)"
    using assms(1) own by (simp add: assign_def call_set_unfold[of n] call_set_with_def)
  with set_js_own[OF assms(1,2) h assms(3), of n e v] show ?thesis by simp
qed

lemma setProp_keys: "map_of ps k = Some p \<Longrightarrow> map fst (setProp k q ps) = map fst ps"
proof -
  assume "map_of ps k = Some p"
  then have "k \<in> fst ` set ps" by (meson domI domIff map_of_eq_None_iff)
  then show ?thesis by (simp add: map_fst_setProp)
qed

lemma call_set_simple:
  assumes "lookup (closures s) c = Some cl" and "cgetter cl = None" and "csetter cl = None"
  shows "unchanged v (cval cl) \<Longrightarrow> call_set n e (ReactiveSetter c) v s = Ok ([], s)"
    and "\<not> unchanged v (cval cl)
         \<Longrightarrow> (if cshallow cl then Ok (None, setCval c v s) else observe n e v False (setCval c v s))
               = Ok (childOb, s3)
         \<Longrightarrow> call_set n e (ReactiveSetter c) v s
               = Ok ((if \<not> production e \<and> ccustomSetter cl then [CCustomSetter] else [])
                       @ CNotify (cdep cl)
                         # map CUpdate (if \<not> production e \<and> \<not> async e
                                        then sort (subs (setChildOb c childOb s3) (cdep cl))
                                        else subs (setChildOb c childOb s3) (cdep cl)),
                     snd (notify e (cdep cl) (setChildOb c childOb s3)))"
proof -
  assume "unchanged v (cval cl)"
  with assms show "call_set n e (ReactiveSetter c) v s = Ok ([], s)"
    by (simp add: call_set_unfold[of n] call_set_with_def)
next
  assume u: "\<not> unchanged v (cval cl)"
    and o: "(if cshallow cl then Ok (None, setCval c v s) else observe n e v False (setCval c v s))
               = Ok (childOb, s3)"
  show "call_set n e (ReactiveSetter c) v s
               = Ok ((if \<not> production e \<and> ccustomSetter cl then [CCustomSetter] else [])
                       @ CNotify (cdep cl)
                         # map CUpdate (if \<not> production e \<and> \<not> async e
                                        then sort (subs (setChildOb c childOb s3) (cdep cl))
                                        else subs (setChildOb c childOb s3) (cdep cl)),
                     snd (notify e (cdep cl) (setChildOb c childOb s3)))"
  proof (cases "cshallow cl")
    case True
    with o have "childOb = None" "s3 = setCval c v s" by simp_all
    with assms u True show ?thesis
      by (simp add: call_set_unfold[of n] call_set_with_def Let_def fst_notify)
  next
    case False
    with o have "observe n e v False (setCval c v s) = Ok (childOb, s3)" by simp
    with assms u False show ?thesis
      by (simp add: call_set_unfold[of n] call_set_with_def Let_def fst_notify)
  qed
qed

lemma set_js_own_reactive:
  assumes "getObj s a = Some x" and "kind x = Plain" and "\<not> inObjectProto k"
    and "map_of (props x) k = Some (AccessorProp g (Some (ReactiveSetter c)) en cf)"
  shows "set_js n e (VRef a) k v s
           = rbind (call_set n e (ReactiveSetter c) v s) (\<lambda>(cs, s1). Ok (v, cs, s1))"
proof -
  have own: "ownProp x k = Some (AccessorProp g (Some (ReactiveSetter c)) en cf)"
    using assms(2,4) by (simp add: ownProp_Plain)
  then have h: "hasOwn x k" by (simp add: hasOwn_def)
  have "assign n e a k v s = call_set n e (ReactiveSetter c) v s"
    using assms(1) own by (simp add: assign_def)
  with set_js_own[OF assms(1,2) h assms(3), of n e v] show ?thesis by simp
qed

lemma setter_keeps_props:
  assumes "(if sh then Ok (None, setCval c v s) else observe n e v False (setCval c v s))
             = Ok (childOb, s3)"
    and "getObj s a = Some x" and "ob x \<noteq> None"
  shows "\<exists>x'. getObj (setChildOb c childOb s3) a = Some x' \<and> props x' = props x"
proof -
  have g: "getObj (setCval c v s) a = Some x" using assms(2) by (simp add: getObj_def setCval_def)
  have "\<exists>x'. getObj s3 a = Some x' \<and> props x' = props x"
  proof (cases sh)
    case True
    with assms(1) g show ?thesis by auto
  next
    case False
    with assms(1) have "observe n e v False (setCval c v s) = Ok (childOb, s3)" by simp
    from observe_keeps_props[OF this g assms(3)] show ?thesis .
  qed
  then show ?thesis by (simp add: getObj_def setChildOb_def)
qed

lemma set_js_new_reactive:
  assumes "getObj s a = Some x" and "kind x = Plain"
    and "\<not> hasOwn x k" and "k \<notin> set (inherited x)" and "\<not> rootOrVue s x"
    and "ob x = Some b" and "lookup (observers s) b = Some r" and "ovalue r = a"
    and "defineReactive n e a k (Some v) False False s = Ok s1"
  shows "set_js n e (VRef a) k v s
           = Ok (v, CNotify (odep r) # map CUpdate (if \<not> production e \<and> \<not> async e
                                                    then sort (subs s1 (odep r))
                                                    else subs s1 (odep r)),
                 snd (notify e (odep r) s1))"
    and "\<exists>x1 c cl. getObj s1 a = Some x1
           \<and> ownProp x1 k = Some (AccessorProp (Some (ReactiveGetter c))
                                     (Some (ReactiveSetter c)) True True)
           \<and> lookup (closures s1) c = Some cl \<and> cval cl = v"
proof -
  show "set_js n e (VRef a) k v s
           = Ok (v, CNotify (odep r) # map CUpdate (if \<not> production e \<and> \<not> async e
                                                    then sort (subs s1 (odep r))
                                                    else subs s1 (odep r)),
                 snd (notify e (odep r) s1))"
    using assms
    by (simp add: set_js_def warnUnless_def isUndef_def isPrimitive_def inOp_def hasOwn_def
        fst_notify)
  from assms(1,3,9) defineReactive_installs[of n e a k v False False s s1 x]
  show "\<exists>x1 c cl. getObj s1 a = Some x1
           \<and> ownProp x1 k = Some (AccessorProp (Some (ReactiveGetter c))
                                     (Some (ReactiveSetter c)) True True)
           \<and> lookup (closures s1) c = Some cl \<and> cval cl = v"
    by (auto simp: hasOwn_def)
qed

text \<open>
  C6, as stated, fails in two ways. On root data it fails by design: the first object
  below has an Observer with \<open>vmCount\<close> 1, the key \<open>b\<close> is not an own property, and
  \<open>set\<close> defines no property and notifies nobody; it warns and returns, and the store
  is unchanged. On an own key that is also the name of a member of
  \<open>Object.prototype\<close> it fails by a slip of the test
  \<open>key in target && !(key in Object.prototype)\<close>, against the comment of \<open>set\<close>
  ("adds the new property and triggers change notification if the property doesn't
  already exist"): the second object has an Observer and the own reactive property
  \<open>toString\<close>, and \<open>set\<close> of that key does not write through the accessor there is;
  it defines the property again, calls \<open>notify\<close> on the Dep of the Observer, and a
  read through the new getter still gives the old value 1.
\<close>

theorem set_on_plain_object_counterexample:
  "obOf root_state (VRef 0) = Some 0
   \<and> \<not> hasOwn (objs root_state ! 0) (Name ''b'')
   \<and> set_js 0 quiet_env (VRef 0) (Name ''b'') (VNum 2) root_state = Ok (VNum 2, [CWarn], root_state)
   \<and> obOf named_state (VRef 0) = Some 0 \<and> obDep named_state 0 = Some 0
   \<and> hasOwn (objs named_state ! 0) (Name ''toString'')
   \<and> set_js 0 quiet_env (VRef 0) (Name ''toString'') (VNum 2) named_state
       = Ok (VNum 2, [CNotify 0, CUpdate 7], rewrapped_state)
   \<and> call_get 1 (ReactiveGetter 1) rewrapped_state = Ok (VNum 1, rewrapped_state)"
  by (simp add: root_state_def reactive_state_def named_state_def rewrapped_state_def
      empty_state_def plainObj_def obProp_def obOf_def obDep_def ob_def isVue_def getObj_def
      lookup_def hasOwn_def ownProp_def set_js_def warnUnless_def isUndef_def isPrimitive_def
      isValidArrayIndex_def inOp_def inObjectProto_def objectProtoKeys_def rootOrVue_def
      quiet_env_def defineReactive_def defineReactive_with_def newDep_def getterOf_def
      setterOf_def observe_with_def defineProperty_def putObj_def setProp_def newClosure_def
      notify_def subs_def subscribeRead_def)

text \<open>
  C6, amended. For \<open>set\<close> on a plain object, which inherits from \<open>Object.prototype\<close>
  alone.

  If the key is an own property and not the name of a member of \<open>Object.prototype\<close>,
  the call is the assignment \<open>target[key] = val\<close> and returns \<open>val\<close>. On a
  user-written accessor that is a call of its setter and nothing else. On a writable
  data property it stores the value and makes no call at all, and the own keys are
  the same afterwards. On a reactive property (one made reactive from a data
  property) the write goes through \<open>reactiveSetter\<close>: a value identical to the
  current one changes nothing and makes no call; another value is stored in the
  closure and observed, the one \<open>notify\<close> is that of the Dep of the property, so not
  of the Dep of the Observer of the object, and the properties of the object are the
  same afterwards.

  If the key is not an own property and the object has an Observer, is well-formed, is
  not a Vue instance and is not root data (\<open>vmCount\<close> is 0), then whenever
  \<open>defineReactive\<close> returns, the key is a reactive property holding \<open>val\<close> afterwards,
  the one call made is \<open>notify\<close> on the Dep of the Observer, and \<open>val\<close> is returned.
\<close>

theorem set_on_plain_object:
  assumes "getObj s a = Some x" and "kind x = Plain" and "inherited x = []"
  shows "(map_of (props x) k = Some (AccessorProp g' (Some (UserSetter c')) en' cf')
          \<and> \<not> inObjectProto k \<longrightarrow>
            set_js n e (VRef a) k v s = Ok (v, [], s\<lparr>cells := (cells s)[c' := v]\<rparr>))
    \<and> (map_of (props x) k = Some p \<and> \<not> is_AccessorProp p \<and> pwritable p \<and> \<not> inObjectProto k \<longrightarrow>
          set_js n e (VRef a) k v s
            = Ok (v, [], putObj a (x\<lparr>props := setProp k (DataProp v True (penum p) (pconf p))
                                                (props x)\<rparr>) s)
          \<and> map fst (setProp k (DataProp v True (penum p) (pconf p)) (props x)) = map fst (props x))
    \<and> (map_of (props x) k = Some (AccessorProp g (Some (ReactiveSetter c)) en cf)
        \<and> \<not> inObjectProto k
        \<and> lookup (closures s) c = Some cl \<and> cgetter cl = None \<and> csetter cl = None \<longrightarrow>
          (unchanged v (cval cl) \<longrightarrow> set_js n e (VRef a) k v s = Ok (v, [], s))
          \<and> (\<not> unchanged v (cval cl)
              \<and> (if cshallow cl then Ok (None, setCval c v s)
                  else observe n e v False (setCval c v s)) = Ok (childOb, s3)
              \<and> ob x = Some b \<and> lookup (observers s) b = Some r \<and> odep r \<noteq> cdep cl \<longrightarrow>
                set_js n e (VRef a) k v s
                  = Ok (v,
                        (if \<not> production e \<and> ccustomSetter cl then [CCustomSetter] else [])
                        @ CNotify (cdep cl)
                          # map CUpdate (if \<not> production e \<and> \<not> async e
                                         then sort (subs (setChildOb c childOb s3) (cdep cl))
                                         else subs (setChildOb c childOb s3) (cdep cl)),
                        snd (notify e (cdep cl) (setChildOb c childOb s3)))
                \<and> CNotify (odep r)
                    \<notin> set ((if \<not> production e \<and> ccustomSetter cl then [CCustomSetter] else [])
                            @ CNotify (cdep cl)
                              # map CUpdate (if \<not> production e \<and> \<not> async e
                                             then sort (subs (setChildOb c childOb s3) (cdep cl))
                                             else subs (setChildOb c childOb s3) (cdep cl)))
                \<and> (\<exists>x'. getObj (setChildOb c childOb s3) a = Some x' \<and> props x' = props x)))
    \<and> (\<not> hasOwn x k \<and> hidden_wf x \<and> \<not> rootOrVue s x \<and> ob x = Some b'
        \<and> lookup (observers s) b' = Some r' \<and> ovalue r' = a
        \<and> defineReactive n e a k (Some v) False False s = Ok s1 \<longrightarrow>
          set_js n e (VRef a) k v s
            = Ok (v, CNotify (odep r') # map CUpdate (if \<not> production e \<and> \<not> async e
                                                      then sort (subs s1 (odep r'))
                                                      else subs s1 (odep r')),
                  snd (notify e (odep r') s1))
          \<and> (\<exists>x1 c1 cl1. getObj s1 a = Some x1
                \<and> ownProp x1 k = Some (AccessorProp (Some (ReactiveGetter c1))
                                          (Some (ReactiveSetter c1)) True True)
                \<and> lookup (closures s1) c1 = Some cl1 \<and> cval cl1 = v))"
proof (intro conjI impI)
  assume "map_of (props x) k = Some (AccessorProp g' (Some (UserSetter c')) en' cf')
          \<and> \<not> inObjectProto k"
  then show "set_js n e (VRef a) k v s = Ok (v, [], s\<lparr>cells := (cells s)[c' := v]\<rparr>)"
    using set_js_own_user[OF assms(1,2), of k g' c' en' cf' n e v] by simp
next
  assume h: "map_of (props x) k = Some p \<and> \<not> is_AccessorProp p \<and> pwritable p \<and> \<not> inObjectProto k"
  then show "set_js n e (VRef a) k v s
            = Ok (v, [], putObj a (x\<lparr>props := setProp k (DataProp v True (penum p) (pconf p))
                                                (props x)\<rparr>) s)"
    using set_js_own_data[OF assms(1,2), of k p n e v] by simp
  from h show "map fst (setProp k (DataProp v True (penum p) (pconf p)) (props x)) = map fst (props x)"
    using setProp_keys[of "props x" k p] by simp
next
  assume h: "map_of (props x) k = Some (AccessorProp g (Some (ReactiveSetter c)) en cf)
        \<and> \<not> inObjectProto k
        \<and> lookup (closures s) c = Some cl \<and> cgetter cl = None \<and> csetter cl = None"
  then have eq: "set_js n e (VRef a) k v s
           = rbind (call_set n e (ReactiveSetter c) v s) (\<lambda>(cs, s1). Ok (v, cs, s1))"
    using set_js_own_reactive[OF assms(1,2), of k g c en cf n e v] by simp
  {
    assume "unchanged v (cval cl)"
    with h call_set_simple(1)[of s c cl v n e] eq
    show "set_js n e (VRef a) k v s = Ok (v, [], s)" by simp
  }
  assume u: "\<not> unchanged v (cval cl)
              \<and> (if cshallow cl then Ok (None, setCval c v s)
                  else observe n e v False (setCval c v s)) = Ok (childOb, s3)
              \<and> ob x = Some b \<and> lookup (observers s) b = Some r \<and> odep r \<noteq> cdep cl"
  with h call_set_simple(2)[of s c cl v n e childOb s3] eq
  show "set_js n e (VRef a) k v s
                  = Ok (v,
                        (if \<not> production e \<and> ccustomSetter cl then [CCustomSetter] else [])
                        @ CNotify (cdep cl)
                          # map CUpdate (if \<not> production e \<and> \<not> async e
                                         then sort (subs (setChildOb c childOb s3) (cdep cl))
                                         else subs (setChildOb c childOb s3) (cdep cl)),
                        snd (notify e (cdep cl) (setChildOb c childOb s3)))"
    by simp
  from u show "CNotify (odep r)
                    \<notin> set ((if \<not> production e \<and> ccustomSetter cl then [CCustomSetter] else [])
                            @ CNotify (cdep cl)
                              # map CUpdate (if \<not> production e \<and> \<not> async e
                                             then sort (subs (setChildOb c childOb s3) (cdep cl))
                                             else subs (setChildOb c childOb s3) (cdep cl)))"
    by auto
  from u setter_keeps_props[of "cshallow cl" c v s n e childOb s3 a x] assms(1)
  show "\<exists>x'. getObj (setChildOb c childOb s3) a = Some x' \<and> props x' = props x" by simp
next
  assume h: "\<not> hasOwn x k \<and> hidden_wf x \<and> \<not> rootOrVue s x \<and> ob x = Some b'
        \<and> lookup (observers s) b' = Some r' \<and> ovalue r' = a
        \<and> defineReactive n e a k (Some v) False False s = Ok s1"
  have ni: "k \<notin> set (inherited x)" using assms(3) by simp
  from h have nh: "\<not> hasOwn x k" and nr: "\<not> rootOrVue s x" and ob: "ob x = Some b'"
    and lk: "lookup (observers s) b' = Some r'" and ov: "ovalue r' = a"
    and dr: "defineReactive n e a k (Some v) False False s = Ok s1"
    by simp_all
  show "set_js n e (VRef a) k v s
            = Ok (v, CNotify (odep r') # map CUpdate (if \<not> production e \<and> \<not> async e
                                                      then sort (subs s1 (odep r'))
                                                      else subs s1 (odep r')),
                  snd (notify e (odep r') s1))"
    by (rule set_js_new_reactive(1)[OF assms(1,2) nh ni nr ob lk ov dr])
  show "\<exists>x1 c1 cl1. getObj s1 a = Some x1
                \<and> ownProp x1 k = Some (AccessorProp (Some (ReactiveGetter c1))
                                          (Some (ReactiveSetter c1)) True True)
                \<and> lookup (closures s1) c1 = Some cl1 \<and> cval cl1 = v"
    by (rule set_js_new_reactive(2)[OF assms(1,2) nh ni nr ob lk ov dr])
qed
text \<open>
  On an object whose \<open>a\<close> is a user-written accessor over a cell, \<open>set\<close> of \<open>a\<close>
  writes the cell. On \<open>{a: 1}\<close> not observed, \<open>set\<close> of \<open>a\<close> stores the value. On \<open>{a: 1}\<close> observed, with
  watcher 7 subscribed to the Dep of the Observer, \<open>set\<close> of the existing key \<open>a\<close>
  notifies the Dep of the property (Dep 1, no subscriber) and not that of the
  Observer, and \<open>set\<close> of the new key \<open>b\<close> defines it and notifies the Dep of the
  Observer (Dep 0).
\<close>

theorem set_on_plain_object_witness:
  "set_js 0 quiet_env (VRef 0) (Name ''a'') (VNum 2)
       (accessor_state\<lparr>objs := [plainObj [(Name ''a'', AccessorProp (Some (UserGetter 0))
                                                       (Some (UserSetter 0)) True True)]]\<rparr>)
     = Ok (VNum 2, [],
           accessor_state\<lparr>objs := [plainObj [(Name ''a'', AccessorProp (Some (UserGetter 0))
                                                           (Some (UserSetter 0)) True True)]],
                           cells := [VNum 2]\<rparr>)
   \<and> set_js 0 quiet_env (VRef 0) (Name ''a'') (VNum 2) plain_state
     = Ok (VNum 2, [],
           plain_state\<lparr>objs := [plainObj [(Name ''a'', DataProp (VNum 2) True True True)]]\<rparr>)
   \<and> set_js 0 quiet_env (VRef 0) (Name ''a'') (VNum 2) (reactive_state\<lparr>deps := [[7], []]\<rparr>)
     = Ok (VNum 2, [CNotify 1],
           reactive_state\<lparr>deps := [[7], []],
                           closures := [newClosure 0 1 (VNum 2) None None None False False]\<rparr>)
   \<and> set_js 0 quiet_env (VRef 0) (Name ''b'') (VNum 2) (reactive_state\<lparr>deps := [[7], []]\<rparr>)
     = Ok (VNum 2, [CNotify 0, CUpdate 7],
           reactive_state
             \<lparr>objs := [plainObj [(Name ''a'', AccessorProp (Some (ReactiveGetter 0))
                                               (Some (ReactiveSetter 0)) True True),
                                 obProp 0,
                                 (Name ''b'', AccessorProp (Some (ReactiveGetter 1))
                                               (Some (ReactiveSetter 1)) True True)]],
              deps := [[7], [], []],
              closures := [newClosure 0 1 (VNum 1) None None None False False,
                           newClosure 0 2 (VNum 2) None None None False False]\<rparr>)"
proof -
  let ?s = "reactive_state\<lparr>deps := [[7], []]\<rparr>"
  let ?pa = "AccessorProp (Some (ReactiveGetter 0)) (Some (ReactiveSetter 0)) True True"
  let ?x = "plainObj [(Name ''a'', ?pa), obProp 0]"
  let ?y = "plainObj [(Name ''a'', DataProp (VNum 1) True True True)]"
  let ?z = "plainObj [(Name ''a'', AccessorProp (Some (UserGetter 0)) (Some (UserSetter 0)) True True)]"
  let ?cl = "newClosure 0 1 (VNum 1) None None None False False"
  let ?r = "\<lparr>ovalue = 0, odep = 0, vmCount = 0\<rparr>"
  let ?s1 = "reactive_state
             \<lparr>objs := [plainObj [(Name ''a'', ?pa), obProp 0,
                                 (Name ''b'', AccessorProp (Some (ReactiveGetter 1))
                                               (Some (ReactiveSetter 1)) True True)]],
              deps := [[7], [], []],
              closures := [newClosure 0 1 (VNum 1) None None None False False,
                           newClosure 0 2 (VNum 2) None None None False False]\<rparr>"
  have gy: "getObj plain_state 0 = Some ?y" "kind ?y = Plain" "inherited ?y = []"
    by (simp_all add: plain_state_def empty_state_def getObj_def lookup_def plainObj_def)
  have hy: "map_of (props ?y) (Name ''a'') = Some (DataProp (VNum 1) True True True)
      \<and> \<not> is_AccessorProp (DataProp (VNum 1) True True True)
      \<and> pwritable (DataProp (VNum 1) True True True) \<and> \<not> inObjectProto (Name ''a'')"
    by (simp add: plainObj_def inObjectProto_def objectProtoKeys_def)
  have g: "getObj ?s 0 = Some ?x" "kind ?x = Plain" "inherited ?x = []"
    by (simp_all add: reactive_state_def empty_state_def getObj_def lookup_def plainObj_def)
  have a: "map_of (props ?x) (Name ''a'') = Some ?pa \<and> \<not> inObjectProto (Name ''a'')
      \<and> lookup (closures ?s) 0 = Some ?cl \<and> cgetter ?cl = None \<and> csetter ?cl = None"
    by (simp add: plainObj_def inObjectProto_def objectProtoKeys_def reactive_state_def
        empty_state_def lookup_def newClosure_def)
  have u: "\<not> unchanged (VNum 2) (cval ?cl)
      \<and> (if cshallow ?cl then Ok (None, setCval 0 (VNum 2) ?s)
          else observe 0 quiet_env (VNum 2) False (setCval 0 (VNum 2) ?s))
          = Ok (None, setCval 0 (VNum 2) ?s)
      \<and> ob ?x = Some 0 \<and> lookup (observers ?s) 0 = Some ?r \<and> odep ?r \<noteq> cdep ?cl"
    by (simp add: unchanged_def strict_eq_def newClosure_def observe_with_def plainObj_def
        obProp_def ob_def reactive_state_def empty_state_def lookup_def)
  have d: "defineReactive 0 quiet_env 0 (Name ''b'') (Some (VNum 2)) False False ?s = Ok ?s1"
    by (simp add: defineReactive_def defineReactive_with_def reactive_state_def empty_state_def
        plainObj_def obProp_def newDep_def getObj_def lookup_def ownProp_def getterOf_def
        setterOf_def observe_with_def defineProperty_def putObj_def setProp_def newClosure_def)
  have b: "\<not> hasOwn ?x (Name ''b'') \<and> hidden_wf ?x \<and> \<not> rootOrVue ?s ?x \<and> ob ?x = Some 0
      \<and> lookup (observers ?s) 0 = Some ?r \<and> ovalue ?r = 0"
    by (simp add: hasOwn_def ownProp_def plainObj_def obProp_def ob_def isVue_def hidden_wf_def
        rootOrVue_def reactive_state_def empty_state_def lookup_def)
  have gz: "getObj (accessor_state\<lparr>objs := [?z]\<rparr>) 0 = Some ?z" "kind ?z = Plain"
      "inherited ?z = []"
    by (simp_all add: accessor_state_def empty_state_def getObj_def lookup_def plainObj_def)
  have hz: "map_of (props ?z) (Name ''a'')
        = Some (AccessorProp (Some (UserGetter 0)) (Some (UserSetter 0)) True True)
      \<and> \<not> inObjectProto (Name ''a'')"
    by (simp add: plainObj_def inObjectProto_def objectProtoKeys_def)
  note th0 = set_on_plain_object [OF gz, where k = "Name ''a''" and n = 0 and e = quiet_env
      and v = "VNum 2" and g' = "Some (UserGetter 0)" and c' = 0 and en' = True and cf' = True,
      THEN conjunct1]
  note th1 = set_on_plain_object [OF gy, where k = "Name ''a''" and n = 0 and e = quiet_env
      and v = "VNum 2" and p = "DataProp (VNum 1) True True True", THEN conjunct2, THEN conjunct1]
  note th2 = set_on_plain_object [OF g, where k = "Name ''a''" and n = 0 and e = quiet_env
      and v = "VNum 2" and g = "Some (ReactiveGetter 0)" and c = 0 and en = True and cf = True
      and cl = ?cl and childOb = None and ?s3.0 = "setCval 0 (VNum 2) ?s" and b = 0 and r = ?r,
      THEN conjunct2, THEN conjunct2, THEN conjunct1]
  note th3 = set_on_plain_object [OF g, where k = "Name ''b''" and n = 0 and e = quiet_env
      and v = "VNum 2" and b' = 0 and r' = ?r and ?s1.0 = ?s1,
      THEN conjunct2, THEN conjunct2, THEN conjunct2]
  from th0 hz th1 hy th2 a u th3 b d show ?thesis
    by (simp add: quiet_env_def subs_def lookup_def reactive_state_def plain_state_def
        accessor_state_def empty_state_def notify_def plainObj_def setProp_def putObj_def
        setCval_def setChildOb_def newClosure_def)
qed

section \<open>set of a new key on an object that is not observed, or is a root\<close>




section \<open>del on a plain object\<close>

text \<open>
  C8, as stated, fails for root data: the object below has an Observer (with
  \<open>vmCount\<close> 1), \<open>a\<close> is an own property, and \<open>del\<close> neither deletes it nor calls
  \<open>notify\<close>: it warns and returns.
\<close>

theorem del_on_plain_object_counterexample:
  "obOf root_state (VRef 0) = Some 0
   \<and> hasOwn (objs root_state ! 0) (Name ''a'')
   \<and> del 0 quiet_env (VRef 0) (Name ''a'') root_state = Ok ([CWarn], root_state)"
  by (simp add: root_state_def reactive_state_def empty_state_def plainObj_def obProp_def obOf_def
      ob_def isVue_def getObj_def lookup_def hasOwn_def ownProp_def del_def warnUnless_def
      isUndef_def isPrimitive_def isValidArrayIndex_def rootOrVue_def quiet_env_def)

text \<open>
  C8, amended. For \<open>del\<close> on a well-formed plain object: if the key is not an own
  property the store is unchanged and nobody is notified (the only call there can be
  is the warning for a Vue instance or root data). If the key is an own, configurable
  property of an object that has an Observer and is neither a Vue instance nor root
  data, the property is deleted and \<open>notify\<close> is called on the Dep of the Observer,
  once and whatever the value of the property was. The hidden \<open>__ob__\<close> is an own
  property like any other: deleting it notifies the Dep of the Observer it held.
\<close>

theorem del_on_plain_object:
  assumes "getObj s a = Some x" and "kind x = Plain" and "hidden_wf x"
  shows "(\<not> hasOwn x k \<longrightarrow>
            del n e (VRef a) k s = Ok (if rootOrVue s x then warnUnless e True else [], s))
    \<and> (\<forall>p b d. \<not> rootOrVue s x \<and> ownProp x k = Some p \<and> pconf p \<and> ob x = Some b
           \<and> obDep s b = Some d \<longrightarrow>
          del n e (VRef a) k s
            = Ok (CNotify d # map CUpdate
                    (if \<not> production e \<and> \<not> async e
                     then sort (subs (putObj a (x\<lparr>props := filter (\<lambda>(k', q). k' \<noteq> k) (props x)\<rparr>) s) d)
                     else subs (putObj a (x\<lparr>props := filter (\<lambda>(k', q). k' \<noteq> k) (props x)\<rparr>) s) d),
                  snd (notify e d (putObj a (x\<lparr>props := filter (\<lambda>(k', q). k' \<noteq> k) (props x)\<rparr>) s)))
          \<and> \<not> hasOwn (x\<lparr>props := filter (\<lambda>(k', q). k' \<noteq> k) (props x)\<rparr>) k)"
proof (intro conjI allI impI)
  assume "\<not> hasOwn x k"
  with assms(1,2)
  show "del n e (VRef a) k s = Ok (if rootOrVue s x then warnUnless e True else [], s)"
    by (simp add: del_def warnUnless_def isUndef_def isPrimitive_def)
next
  fix p b d
  assume h: "\<not> rootOrVue s x \<and> ownProp x k = Some p \<and> pconf p \<and> ob x = Some b
           \<and> obDep s b = Some d"
  let ?s' = "putObj a (x\<lparr>props := filter (\<lambda>(k', q). k' \<noteq> k) (props x)\<rparr>) s"
  have mp: "map_of (props x) k = Some p"
    using h assms(2) by (auto simp: ownProp_def split: option.splits)
  have od: "obDep ?s' b = Some d" using h by (simp add: obDep_def putObj_def)
  from h assms(1,2) mp od
  show "del n e (VRef a) k s
            = Ok (CNotify d # map CUpdate
                    (if \<not> production e \<and> \<not> async e then sort (subs ?s' d) else subs ?s' d),
                  snd (notify e d ?s'))"
    by (simp add: del_def warnUnless_def isUndef_def isPrimitive_def hasOwn_def deleteProp_def
        fst_notify)
  have "map_of (filter (\<lambda>(k', q). k' \<noteq> k) (props x)) k = None"
    by (auto simp: map_of_eq_None_iff)
  with assms(2) show "\<not> hasOwn (x\<lparr>props := filter (\<lambda>(k', q). k' \<noteq> k) (props x)\<rparr>) k"
    by (simp add: hasOwn_def ownProp_def)
qed

text \<open>
  On \<open>{a: 1}\<close> observed, with watcher 7 subscribed to the Dep of the Observer: \<open>del\<close>
  of the absent key \<open>b\<close> does nothing, \<open>del\<close> of \<open>a\<close> deletes it and notifies, and
  so does \<open>del\<close> of \<open>__ob__\<close>.
\<close>

theorem del_on_plain_object_witness:
  "del 0 quiet_env (VRef 0) (Name ''b'') (reactive_state\<lparr>deps := [[7], []]\<rparr>)
     = Ok ([], reactive_state\<lparr>deps := [[7], []]\<rparr>)
   \<and> del 0 quiet_env (VRef 0) (Name ''a'') (reactive_state\<lparr>deps := [[7], []]\<rparr>)
     = Ok ([CNotify 0, CUpdate 7],
           reactive_state\<lparr>objs := [plainObj [obProp 0]], deps := [[7], []]\<rparr>)
   \<and> del 0 quiet_env (VRef 0) (Name ''__ob__'') (reactive_state\<lparr>deps := [[7], []]\<rparr>)
     = Ok ([CNotify 0, CUpdate 7],
           reactive_state\<lparr>objs := [plainObj [(Name ''a'', AccessorProp (Some (ReactiveGetter 0))
                                                        (Some (ReactiveSetter 0)) True True)]],
                           deps := [[7], []]\<rparr>)"
proof -
  let ?s = "reactive_state\<lparr>deps := [[7], []]\<rparr>"
  let ?p = "AccessorProp (Some (ReactiveGetter 0)) (Some (ReactiveSetter 0)) True True"
  let ?x = "plainObj [(Name ''a'', ?p), obProp 0]"
  have g: "getObj ?s 0 = Some ?x" "kind ?x = Plain" "hidden_wf ?x"
    by (simp_all add: reactive_state_def empty_state_def getObj_def lookup_def plainObj_def
        obProp_def hidden_wf_def)
  have a: "\<not> hasOwn ?x (Name ''b'')" "\<not> rootOrVue ?s ?x"
    by (simp_all add: hasOwn_def ownProp_def plainObj_def obProp_def ob_def isVue_def
        rootOrVue_def reactive_state_def empty_state_def lookup_def)
  have b: "\<not> rootOrVue ?s ?x \<and> ownProp ?x (Name ''a'') = Some ?p \<and> pconf ?p \<and> ob ?x = Some 0
      \<and> obDep ?s 0 = Some 0"
    by (simp add: hasOwn_def ownProp_def plainObj_def obProp_def ob_def isVue_def rootOrVue_def
        reactive_state_def empty_state_def lookup_def obDep_def)
  have c: "\<not> rootOrVue ?s ?x \<and> ownProp ?x (Name ''__ob__'') = Some (ObProp 0 True False True)
      \<and> pconf (ObProp 0 True False True) \<and> ob ?x = Some 0 \<and> obDep ?s 0 = Some 0"
    by (simp add: hasOwn_def ownProp_def plainObj_def obProp_def ob_def isVue_def rootOrVue_def
        reactive_state_def empty_state_def lookup_def obDep_def)
  from del_on_plain_object [OF g, of "Name ''b''" 0 quiet_env, THEN conjunct1]
       del_on_plain_object [OF g, of "Name ''a''" 0 quiet_env, THEN conjunct2,
         THEN spec, THEN spec, THEN spec, of ?p 0 0]
       del_on_plain_object [OF g, of "Name ''__ob__''" 0 quiet_env, THEN conjunct2,
         THEN spec, THEN spec, THEN spec, of "ObProp 0 True False True" 0 0] a b c
  show ?thesis
    by (simp add: quiet_env_def subs_def lookup_def reactive_state_def empty_state_def notify_def
        putObj_def plainObj_def obProp_def)
qed

end
